theory Spec2Isabelle
  imports Main "HOL-Library.Sublist"
begin

section \<open>JavaScript values\<close>

text \<open>
  The values the scanner handles are what \<^verbatim>\<open>JSON.parse\<close> returns, plus
  \<^verbatim>\<open>undefined\<close> for a property that is not there. An object is the list of its own
  properties in the order \<^verbatim>\<open>Object.entries\<close> enumerates them. A number is carried as
  its canonical decimal rendering, the string \<^verbatim>\<open>String(x)\<close> returns (\<^verbatim>\<open>1.5\<close> is
  \<open>JNum ''1.5''\<close>, zero of either sign is \<open>JNum ''0''\<close>): the program only coerces
  numbers to strings, tests their truthiness and uses them as keys, and all three are
  functions of that rendering.
\<close>

datatype jsval =
    JUndefined
  | JNull
  | JBool bool
  | JNum string
  | JStr string
  | JArr "jsval list"
  | JObj "(string \<times> jsval) list"

text \<open>
  What ends a run early: an uncaught \<^verbatim>\<open>TypeError\<close>, or \<^verbatim>\<open>process.exit(code)\<close>.
\<close>

datatype error = TypeError | Exit nat

text \<open>\<^verbatim>\<open>!v\<close> is \<open>\<not> truthy v\<close>.\<close>

fun truthy :: "jsval \<Rightarrow> bool" where
  "truthy JUndefined = False"
| "truthy JNull = False"
| "truthy (JBool b) = b"
| "truthy (JNum r) = (r \<noteq> ''0'' \<and> r \<noteq> ''NaN'')"
| "truthy (JStr s) = (s \<noteq> [])"
| "truthy (JArr xs) = True"
| "truthy (JObj kvs) = True"

definition nullish :: "jsval \<Rightarrow> bool" where
  "nullish v = (v = JUndefined \<or> v = JNull)"

text \<open>\<^verbatim>\<open>typeof v === "object"\<close>.\<close>

fun typeof_object :: "jsval \<Rightarrow> bool" where
  "typeof_object JNull = True"
| "typeof_object (JArr xs) = True"
| "typeof_object (JObj kvs) = True"
| "typeof_object v = False"

fun isArray :: "jsval \<Rightarrow> bool" where
  "isArray (JArr xs) = True"
| "isArray v = False"

text \<open>
  \<^verbatim>\<open>v.k\<close> for a receiver that is neither \<^verbatim>\<open>null\<close> nor \<^verbatim>\<open>undefined\<close> (on those
  the access throws, and every caller tests first), and for the property names the program
  reads: \<^verbatim>\<open>packages\<close>, \<^verbatim>\<open>name\<close>, \<^verbatim>\<open>version\<close>, \<^verbatim>\<open>badVersions\<close>,
  \<^verbatim>\<open>dependencies\<close>. No prototype has one of them, so only an object's own property
  answers.
\<close>

fun getprop :: "jsval \<Rightarrow> string \<Rightarrow> jsval" where
  "getprop (JObj kvs) k = (case map_of kvs k of Some v \<Rightarrow> v | None \<Rightarrow> JUndefined)"
| "getprop v k = JUndefined"

fun join_comma :: "string list \<Rightarrow> string" where
  "join_comma [] = []"
| "join_comma [s] = s"
| "join_comma (s # t # ss) = s @ '','' @ join_comma (t # ss)"

text \<open>
  \<^verbatim>\<open>String(v)\<close>, which is also what a template literal makes of \<^verbatim>\<open>${v}\<close>. An array
  joins its elements with commas, \<^verbatim>\<open>null\<close> and \<^verbatim>\<open>undefined\<close> elements as the empty
  string. A parsed object answers \<^verbatim>\<open>[object Object]\<close> through
  \<^verbatim>\<open>Object.prototype.toString\<close>, unless it has a property \<^verbatim>\<open>toString\<close> of its own:
  that value is parsed data, not a function, and the conversion throws a \<^verbatim>\<open>TypeError\<close>.
\<close>

fun String_js :: "jsval \<Rightarrow> error + string"
  and String_elems :: "jsval list \<Rightarrow> error + string list" where
  "String_js JUndefined = Inr ''undefined''"
| "String_js JNull = Inr ''null''"
| "String_js (JBool b) = Inr (if b then ''true'' else ''false'')"
| "String_js (JNum r) = Inr r"
| "String_js (JStr s) = Inr s"
| "String_js (JArr xs) =
     (case String_elems xs of Inl e \<Rightarrow> Inl e | Inr ss \<Rightarrow> Inr (join_comma ss))"
| "String_js (JObj kvs) =
     (if ''toString'' \<in> set (map fst kvs) then Inl TypeError else Inr ''[object Object]'')"
| "String_elems [] = Inr []"
| "String_elems (x # xs) =
     (case (if x = JUndefined \<or> x = JNull then Inr [] else String_js x) of
        Inl e \<Rightarrow> Inl e
      | Inr s \<Rightarrow> (case String_elems xs of Inl e \<Rightarrow> Inl e | Inr ss \<Rightarrow> Inr (s # ss)))"

text \<open>\<^verbatim>\<open>xs.map(String)\<close> on the elements of an array.\<close>

fun map_String :: "jsval list \<Rightarrow> error + string list" where
  "map_String [] = Inr []"
| "map_String (x # xs) =
     (case String_js x of
        Inl e \<Rightarrow> Inl e
      | Inr s \<Rightarrow> (case map_String xs of Inl e \<Rightarrow> Inl e | Inr ss \<Rightarrow> Inr (s # ss)))"

text \<open>
  What \<^verbatim>\<open>for (const x of v)\<close> iterates: the elements of an array, the characters of a
  string; any other parsed value is not iterable.
\<close>

fun iterate :: "jsval \<Rightarrow> error + jsval list" where
  "iterate (JArr xs) = Inr xs"
| "iterate (JStr s) = Inr (map (\<lambda>c. JStr [c]) s)"
| "iterate v = Inl TypeError"

definition startsWith :: "string \<Rightarrow> string \<Rightarrow> bool" where
  "startsWith s p = (take (length p) s = p)"

text \<open>
  The decimal digits of an array index, the keys \<^verbatim>\<open>Object.entries\<close> gives an array.
\<close>

function index_string :: "nat \<Rightarrow> string" where
  "index_string n =
     (if n < 10 then [''0123456789'' ! n]
      else index_string (n div 10) @ [''0123456789'' ! (n mod 10)])"
  by pat_completeness auto

termination
  by (relation "measure id") auto

text \<open>
  \<^verbatim>\<open>Object.entries(v)\<close> for the values the collector calls it on: truthy values whose
  \<^verbatim>\<open>typeof\<close> is \<^verbatim>\<open>"object"\<close>, that is objects and arrays.
\<close>

fun Object_entries :: "jsval \<Rightarrow> (string \<times> jsval) list" where
  "Object_entries (JObj kvs) = kvs"
| "Object_entries (JArr xs) = zip (map index_string [0..<length xs]) xs"
| "Object_entries v = []"

section \<open>Sets and Maps in insertion order\<close>

text \<open>
  A \<^verbatim>\<open>Set\<close> of strings is the list of its members in insertion order.
\<close>

definition Set_add :: "string list \<Rightarrow> string \<Rightarrow> string list" where
  "Set_add s v = (if v \<in> set s then s else s @ [v])"

fun new_Set :: "string list \<Rightarrow> string list \<Rightarrow> string list" where
  "new_Set [] s = s"
| "new_Set (v # vs) s = new_Set vs (Set_add s v)"

text \<open>
  The key of a \<^verbatim>\<open>Map\<close> is whatever value the program hands it: the name of a manifest
  or of a registry entry is any parsed value. A \<^verbatim>\<open>Map\<close> compares keys by SameValueZero:
  primitives by value, and an array or an object only equals itself. Values carry no
  identity here, and none is needed: every array or object the program looks up is the
  name of one manifest or of one registry entry, an object of its own (a manifest is parsed
  anew each time it is read, also when a cyclic tree leads to the same file again), so it
  equals no key a map holds. \<open>sameValueZero k' k\<close> compares a key \<open>k'\<close> the map holds with
  such a value \<open>k\<close>.
\<close>

fun sameValueZero :: "jsval \<Rightarrow> jsval \<Rightarrow> bool" where
  "sameValueZero (JArr xs) b = False"
| "sameValueZero (JObj kvs) b = False"
| "sameValueZero a b = (a = b)"

text \<open>
  A \<^verbatim>\<open>Map\<close> is the list of its entries in insertion order: \<^verbatim>\<open>m.has(k)\<close>,
  \<^verbatim>\<open>m.get(k)\<close> (\<open>None\<close> for \<^verbatim>\<open>undefined\<close>, what it returns exactly when
  \<^verbatim>\<open>m.has(k)\<close> is false) and \<^verbatim>\<open>m.set(k, v)\<close>, which on a key the map has replaces
  the value in place and on another key adds the entry last. An inventory is a \<^verbatim>\<open>Map\<close>
  from package name to the \<^verbatim>\<open>Set\<close> of its versions.
\<close>

fun Map_has :: "(jsval \<times> 'v) list \<Rightarrow> jsval \<Rightarrow> bool" where
  "Map_has [] k = False"
| "Map_has ((k', v') # m) k = (sameValueZero k' k \<or> Map_has m k)"

fun Map_get :: "(jsval \<times> 'v) list \<Rightarrow> jsval \<Rightarrow> 'v option" where
  "Map_get [] k = None"
| "Map_get ((k', v') # m) k = (if sameValueZero k' k then Some v' else Map_get m k)"

fun Map_set :: "(jsval \<times> 'v) list \<Rightarrow> jsval \<Rightarrow> 'v \<Rightarrow> (jsval \<times> 'v) list" where
  "Map_set [] k v = [(k, v)]"
| "Map_set ((k', v') # m) k v =
     (if sameValueZero k' k then (k', v) # m else (k', v') # Map_set m k v)"

type_synonym inventory = "(jsval \<times> string list) list"

section \<open>The file system\<close>

text \<open>
  A path is the list of its segments; \<^verbatim>\<open>path.join(dir, name)\<close> adds one. The file
  system is what the three calls the scanner makes observe of it, each an arbitrary
  function of the path, so that a tree may be cyclic or without end:
  \<^verbatim>\<open>fs.readdirSync(p, {withFileTypes: true})\<close> (\<open>None\<close> when it throws),
  \<^verbatim>\<open>fs.existsSync(p)\<close>, and \<^verbatim>\<open>JSON.parse(fs.readFileSync(p, "utf8"))\<close>
  (\<open>None\<close> when reading or parsing throws).
\<close>

type_synonym path = "string list"

datatype dirent = Dirent (ent_name: string) (isDirectory: bool)

record fs =
  readdirSync :: "path \<Rightarrow> dirent list option"
  existsSync :: "path \<Rightarrow> bool"
  readJSON :: "path \<Rightarrow> jsval option"

definition path_join :: "path \<Rightarrow> string \<Rightarrow> path" where
  "path_join dir nm = dir @ [nm]"

section \<open>lib/core.js\<close>

text \<open>
  \<^verbatim>\<open>add(map, name, version)\<close>, with the updated map returned. On a name the map has
  (\<^verbatim>\<open>map.has(name)\<close>, that is \<^verbatim>\<open>map.get(name)\<close> finds a set), \<^verbatim>\<open>map.get(name)\<close> is
  the set of that entry. On a name it lacks, \<^verbatim>\<open>map.set(name, new Set())\<close> adds an entry
  last and \<^verbatim>\<open>map.get(name)\<close> is that new set (the lookup is made with the very value
  that was just set, so it also finds a name that is an array or an object).
  \<^verbatim>\<open>String(version)\<close> goes into the set; when it throws, nothing catches the exception.
\<close>

definition add :: "inventory \<Rightarrow> jsval \<Rightarrow> jsval \<Rightarrow> error + inventory" where
  "add m nm ver =
     (case String_js ver of
        Inl e \<Rightarrow> Inl e
      | Inr v \<Rightarrow>
          (case Map_get m nm of
             None \<Rightarrow> Inr (m @ [(nm, Set_add [] v)])
           | Some s \<Rightarrow> Inr (Map_set m nm (Set_add s v))))"

text \<open>
  A finding \<^verbatim>\<open>{ name, version }\<close>: the name is the key of the installed map, the
  version a member of its set.
\<close>

record finding =
  name :: jsval
  version :: string

text \<open>
  The first loop of \<^verbatim>\<open>compare\<close>:
  \<^verbatim>\<open>badIndex.set(entry.name, new Set(entry.badVersions.map(String)))\<close> for every entry.
  Only an array has a \<^verbatim>\<open>map\<close> method to call.
\<close>

fun buildIndex ::
  "jsval list \<Rightarrow> (jsval \<times> string list) list \<Rightarrow> error + (jsval \<times> string list) list" where
  "buildIndex [] badIndex = Inr badIndex"
| "buildIndex (entry # rest) badIndex =
     (if nullish entry then Inl TypeError
      else case getprop entry ''badVersions'' of
        JArr bvs \<Rightarrow>
          (case map_String bvs of
             Inl e \<Rightarrow> Inl e
           | Inr ss \<Rightarrow>
               buildIndex rest (Map_set badIndex (getprop entry ''name'') (new_Set ss [])))
      | other \<Rightarrow> Inl TypeError)"

text \<open>The inner loop of \<^verbatim>\<open>compare\<close>, over the versions of one installed name.\<close>

fun pushMatches :: "jsval \<Rightarrow> string list \<Rightarrow> string list \<Rightarrow> finding list \<Rightarrow> finding list" where
  "pushMatches nm bad [] findings = findings"
| "pushMatches nm bad (v # versions) findings =
     pushMatches nm bad versions
       (if v \<in> set bad then findings @ [\<lparr>name = nm, version = v\<rparr>] else findings)"

text \<open>The second loop of \<^verbatim>\<open>compare\<close>, over the entries of the installed map.\<close>

fun scanInstalled ::
  "(jsval \<times> string list) list \<Rightarrow> inventory \<Rightarrow> finding list \<Rightarrow> finding list" where
  "scanInstalled badIndex [] findings = findings"
| "scanInstalled badIndex ((nm, versions) # rest) findings =
     (case Map_get badIndex nm of
        None \<Rightarrow> scanInstalled badIndex rest findings
      | Some bad \<Rightarrow> scanInstalled badIndex rest (pushMatches nm bad versions findings))"

text \<open>
  The index \<^verbatim>\<open>compare\<close> derives from the registry: the first loop, over
  \<^verbatim>\<open>knownBad.packages\<close>, from an empty \<^verbatim>\<open>Map\<close>.
\<close>

definition badIndexOf :: "jsval \<Rightarrow> error + (jsval \<times> string list) list" where
  "badIndexOf knownBad =
     (if nullish knownBad then Inl TypeError
      else case iterate (getprop knownBad ''packages'') of
        Inl e \<Rightarrow> Inl e
      | Inr entries \<Rightarrow> buildIndex entries [])"

definition compare :: "inventory \<Rightarrow> jsval \<Rightarrow> error + finding list" where
  "compare installedMap knownBad =
     (case badIndexOf knownBad of
        Inl e \<Rightarrow> Inl e
      | Inr badIndex \<Rightarrow> Inr (scanInstalled badIndex installedMap []))"

text \<open>
  The key \<^verbatim>\<open>`${f.name}@${f.version}`\<close> of \<^verbatim>\<open>uniqFindings\<close>: the template literal
  converts the name to a string.
\<close>

definition finding_key :: "finding \<Rightarrow> error + string" where
  "finding_key f =
     (case String_js (name f) of
        Inl e \<Rightarrow> Inl e
      | Inr s \<Rightarrow> Inr (s @ ''@'' @ version f))"

text \<open>
  The filter of \<^verbatim>\<open>uniqFindings\<close>, with the keys seen so far. The callback computes the
  key of every finding, kept or not.
\<close>

fun uniq_filter :: "string list \<Rightarrow> finding list \<Rightarrow> error + finding list" where
  "uniq_filter seen [] = Inr []"
| "uniq_filter seen (f # fs) =
     (case finding_key f of
        Inl e \<Rightarrow> Inl e
      | Inr key \<Rightarrow>
          if key \<in> set seen then uniq_filter seen fs
          else (case uniq_filter (seen @ [key]) fs of
                  Inl e \<Rightarrow> Inl e
                | Inr kept \<Rightarrow> Inr (f # kept)))"

definition uniqFindings :: "finding list \<Rightarrow> error + finding list" where
  "uniqFindings findings = uniq_filter [] findings"

text \<open>
  \<^verbatim>\<open>readJSONSafe(p)\<close>: the parsed content, \<^verbatim>\<open>null\<close> when reading or parsing throws.
\<close>

definition readJSONSafe :: "fs \<Rightarrow> path \<Rightarrow> jsval" where
  "readJSONSafe f p = (case readJSON f p of None \<Rightarrow> JNull | Some v \<Rightarrow> v)"

text \<open>
  \<^verbatim>\<open>key.replace(/^node_modules\//, "")\<close>: one \<^verbatim>\<open>node_modules/\<close> at the start of the
  key is removed, nothing else.
\<close>

definition replace_install_root :: "string \<Rightarrow> string" where
  "replace_install_root key =
     (if startsWith key ''node_modules/'' then drop (length ''node_modules/'') key else key)"

text \<open>
  The loop of \<^verbatim>\<open>collectFromPackageLock\<close> over \<^verbatim>\<open>Object.entries(lock.packages)\<close>, the
  flat map of the lockfile. The name it adds is a string.
\<close>

fun collectPackages :: "(string \<times> jsval) list \<Rightarrow> inventory \<Rightarrow> error + inventory" where
  "collectPackages [] hits = Inr hits"
| "collectPackages ((key, meta) # rest) hits =
     (if \<not> truthy meta \<or> \<not> truthy (getprop meta ''version'') then collectPackages rest hits
      else case add hits (JStr (replace_install_root key)) (getprop meta ''version'') of
        Inl e \<Rightarrow> Inl e
      | Inr hits' \<Rightarrow> collectPackages rest hits')"

text \<open>
  The measure under which \<^verbatim>\<open>walkDeps\<close> terminates: the size of the values still to
  visit.
\<close>

definition entries_size :: "(string \<times> jsval) list \<Rightarrow> nat" where
  "entries_size kvs = sum_list (map (\<lambda>kv. Suc (size (snd kv))) kvs)"

lemma size_map_of: "map_of kvs k = Some v \<Longrightarrow> size v < Suc (size_list (size_prod (\<lambda>x. 0) size) kvs)"
  by (induction kvs) (auto split: if_splits)

lemma size_getprop: "size (getprop v k) \<le> size v"
  by (cases v) (auto split: option.splits dest: size_map_of)

lemma entries_size_zip: "length ks = length xs \<Longrightarrow> entries_size (zip ks xs) = size_list size xs"
  by (induction ks xs rule: list_induct2) (auto simp: entries_size_def)

lemma entries_size_obj: "entries_size kvs \<le> size_list (size_prod (\<lambda>x. 0) size) kvs"
  by (induction kvs) (auto simp: entries_size_def)

lemma entries_size_Object_entries:
  "truthy obj \<Longrightarrow> typeof_object obj \<Longrightarrow> entries_size (Object_entries obj) < size obj"
  by (cases obj) (auto simp: entries_size_zip entries_size_obj less_Suc_eq_le)

text \<open>
  \<^verbatim>\<open>walkDeps(obj)\<close> of \<^verbatim>\<open>collectFromPackageLock\<close>, and its loop over
  \<^verbatim>\<open>Object.entries(obj)\<close>, whose names are strings.
\<close>

function walkDeps :: "jsval \<Rightarrow> inventory \<Rightarrow> error + inventory"
  and walkDeps_entries :: "(string \<times> jsval) list \<Rightarrow> inventory \<Rightarrow> error + inventory" where
  "walkDeps obj hits =
     (if \<not> truthy obj \<or> \<not> typeof_object obj then Inr hits
      else walkDeps_entries (Object_entries obj) hits)"
| "walkDeps_entries [] hits = Inr hits"
| "walkDeps_entries ((nm, meta) # rest) hits =
     (if \<not> truthy meta then walkDeps_entries rest hits
      else case (if truthy (getprop meta ''version'')
                 then add hits (JStr nm) (getprop meta ''version'') else Inr hits) of
        Inl e \<Rightarrow> Inl e
      | Inr hits1 \<Rightarrow>
          (case (if truthy (getprop meta ''dependencies'')
                 then walkDeps (getprop meta ''dependencies'') hits1 else Inr hits1) of
             Inl e \<Rightarrow> Inl e
           | Inr hits2 \<Rightarrow> walkDeps_entries rest hits2))"
  by pat_completeness auto

termination
proof (relation "measure (\<lambda>x. case x of Inl (obj, hits) \<Rightarrow> 2 * size obj + 1
                                      | Inr (kvs, hits) \<Rightarrow> 2 * entries_size kvs + 2)")
  show "wf (measure (\<lambda>x. case x of Inl (obj, hits) \<Rightarrow> 2 * size obj + 1
                                      | Inr (kvs, hits) \<Rightarrow> 2 * entries_size kvs + 2))"
    by simp
next
  fix obj :: jsval and hits :: inventory
  assume "\<not> (\<not> truthy obj \<or> \<not> typeof_object obj)"
  then have "entries_size (Object_entries obj) < size obj"
    using entries_size_Object_entries by blast
  then show "(Inr (Object_entries obj, hits), Inl (obj, hits))
    \<in> measure (\<lambda>x. case x of Inl (obj, hits) \<Rightarrow> 2 * size obj + 1
                                      | Inr (kvs, hits) \<Rightarrow> 2 * entries_size kvs + 2)"
    by simp
next
  fix nm meta rest and hits :: inventory
  show "(Inr (rest, hits), Inr ((nm, meta) # rest, hits))
    \<in> measure (\<lambda>x. case x of Inl (obj, hits) \<Rightarrow> 2 * size obj + 1
                                      | Inr (kvs, hits) \<Rightarrow> 2 * entries_size kvs + 2)"
    by (simp add: entries_size_def)
next
  fix nm meta rest and hits x2 :: inventory
  show "(Inl (getprop meta ''dependencies'', x2), Inr ((nm, meta) # rest, hits))
    \<in> measure (\<lambda>x. case x of Inl (obj, hits) \<Rightarrow> 2 * size obj + 1
                                      | Inr (kvs, hits) \<Rightarrow> 2 * entries_size kvs + 2)"
    using size_getprop [of meta "''dependencies''"] by (simp add: entries_size_def)
next
  fix nm meta rest and hits x2 x2a :: inventory
  show "(Inr (rest, x2a), Inr ((nm, meta) # rest, hits))
    \<in> measure (\<lambda>x. case x of Inl (obj, hits) \<Rightarrow> 2 * size obj + 1
                                      | Inr (kvs, hits) \<Rightarrow> 2 * entries_size kvs + 2)"
    by (simp add: entries_size_def)
qed

text \<open>
  \<^verbatim>\<open>collectFromPackageLock(projectRoot)\<close>. An exception of \<open>add\<close> is not caught.
\<close>

definition collectFromPackageLock :: "fs \<Rightarrow> path \<Rightarrow> error + inventory" where
  "collectFromPackageLock f projectRoot =
     (let lockPath = path_join projectRoot ''package-lock.json'' in
      if \<not> existsSync f lockPath then Inr []
      else let lock = readJSONSafe f lockPath in
        if \<not> truthy lock then Inr []
        else case (if truthy (getprop lock ''packages'') \<and> typeof_object (getprop lock ''packages'')
                   then collectPackages (Object_entries (getprop lock ''packages'')) []
                   else Inr []) of
          Inl e \<Rightarrow> Inl e
        | Inr hits \<Rightarrow>
            if truthy (getprop lock ''dependencies'')
            then walkDeps (getprop lock ''dependencies'') hits else Inr hits)"

section \<open>check-compromised.js\<close>

text \<open>
  The file \<^verbatim>\<open>loadKnownBad\<close> reads: \<^verbatim>\<open>compromised.json\<close> of the project root when it
  exists, else the one bundled beside the script, else none.
\<close>

definition knownBadPath :: "fs \<Rightarrow> path \<Rightarrow> path \<Rightarrow> path option" where
  "knownBadPath f projectRoot dirname =
     (if \<not> existsSync f (path_join projectRoot ''compromised.json'')
      then (if existsSync f (path_join dirname ''compromised.json'')
            then Some (path_join dirname ''compromised.json'') else None)
      else Some (path_join projectRoot ''compromised.json''))"

text \<open>\<^verbatim>\<open>loadKnownBad()\<close>; \<^verbatim>\<open>process.exit(2)\<close> is the result \<open>Inl (Exit 2)\<close>.\<close>

definition loadKnownBad :: "fs \<Rightarrow> path \<Rightarrow> path \<Rightarrow> error + jsval" where
  "loadKnownBad f projectRoot dirname =
     (case knownBadPath f projectRoot dirname of
        None \<Rightarrow> Inl (Exit 2)
      | Some jsonPath \<Rightarrow>
          (let data = readJSONSafe f jsonPath in
           if \<not> truthy data \<or> \<not> isArray (getprop data ''packages'') then Inl (Exit 2)
           else Inr data))"

text \<open>
  \<^verbatim>\<open>processPkg(pkgDir)\<close> of \<^verbatim>\<open>collectFromNodeModules\<close>, with the updated
  \<^verbatim>\<open>hits\<close> returned. Whatever truthy value the manifest has as its \<^verbatim>\<open>name\<close> becomes
  the key, a string or not.
\<close>

definition processPkg :: "fs \<Rightarrow> path \<Rightarrow> inventory \<Rightarrow> error + inventory" where
  "processPkg f pkgDir hits =
     (let pkgJsonPath = path_join pkgDir ''package.json'' in
      if \<not> existsSync f pkgJsonPath then Inr hits
      else let pkg = readJSONSafe f pkgJsonPath in
        if \<not> truthy pkg \<or> \<not> truthy (getprop pkg ''name'') \<or> \<not> truthy (getprop pkg ''version'')
        then Inr hits
        else add hits (getprop pkg ''name'') (getprop pkg ''version''))"

text \<open>
  The state of a walk: the inventory \<^verbatim>\<open>hits\<close> the walk fills, and the calls of
  \<^verbatim>\<open>fs.readdirSync\<close> made so far, each with the depth of the \<^verbatim>\<open>walk\<close> that made it.
\<close>

record scan =
  found :: inventory
  dirsRead :: "(path \<times> nat) list"

definition reading :: "path \<Rightarrow> nat \<Rightarrow> scan \<Rightarrow> scan" where
  "reading dir depth st = st\<lparr>dirsRead := dirsRead st @ [(dir, depth)]\<rparr>"

text \<open>
  What both loops do with a package directory: \<^verbatim>\<open>processPkg(pkgDir)\<close>, then the
  nested \<^verbatim>\<open>node_modules\<close> when it exists, at \<^verbatim>\<open>depth + 1\<close>. \<open>walk\<close> is
  \<^verbatim>\<open>walk(dir, depth)\<close>, \<open>walk_entries\<close> its loop over \<^verbatim>\<open>entries\<close> and
  \<open>walk_scoped\<close> the loop over \<^verbatim>\<open>scoped\<close>, the entries of a directory whose name
  starts with \<^verbatim>\<open>@\<close>. A call returns the state it leaves, \<open>Inr st\<close>, or it ends with
  the exception \<open>add\<close> threw, which nothing in the walk catches: \<open>Inl (e, st)\<close>, with the
  state before the \<^verbatim>\<open>processPkg\<close> that threw; its log of reads is the log at the throw
  (\<^verbatim>\<open>hits\<close> is not looked at again, the exception ends the process).
\<close>

function walk :: "fs \<Rightarrow> path \<Rightarrow> nat \<Rightarrow> scan \<Rightarrow> (error \<times> scan) + scan"
  and walk_entries :: "fs \<Rightarrow> path \<Rightarrow> nat \<Rightarrow> dirent list \<Rightarrow> scan \<Rightarrow> (error \<times> scan) + scan"
  and walk_scoped :: "fs \<Rightarrow> path \<Rightarrow> nat \<Rightarrow> dirent list \<Rightarrow> scan \<Rightarrow> (error \<times> scan) + scan" where
  "walk f dir depth st =
     (if depth > 6 then Inr st
      else case readdirSync f dir of
        None \<Rightarrow> Inr (reading dir depth st)
      | Some entries \<Rightarrow> walk_entries f dir depth entries (reading dir depth st))"
| "walk_entries f dir depth [] st = Inr st"
| "walk_entries f dir depth (ent # rest) st =
     (if \<not> isDirectory ent \<or> startsWith (ent_name ent) ''.'' then walk_entries f dir depth rest st
      else if startsWith (ent_name ent) ''@'' then
        (case readdirSync f (path_join dir (ent_name ent)) of
           None \<Rightarrow> walk_entries f dir depth rest (reading (path_join dir (ent_name ent)) depth st)
         | Some scoped \<Rightarrow>
             (case walk_scoped f (path_join dir (ent_name ent)) depth scoped
                     (reading (path_join dir (ent_name ent)) depth st) of
                Inl thrown \<Rightarrow> Inl thrown
              | Inr st1 \<Rightarrow> walk_entries f dir depth rest st1))
      else
        (case processPkg f (path_join dir (ent_name ent)) (found st) of
           Inl e \<Rightarrow> Inl (e, st)
         | Inr hits \<Rightarrow>
             (case (if existsSync f (path_join (path_join dir (ent_name ent)) ''node_modules'')
                    then walk f (path_join (path_join dir (ent_name ent)) ''node_modules'')
                           (depth + 1) (st\<lparr>found := hits\<rparr>)
                    else Inr (st\<lparr>found := hits\<rparr>)) of
                Inl thrown \<Rightarrow> Inl thrown
              | Inr st1 \<Rightarrow> walk_entries f dir depth rest st1)))"
| "walk_scoped f scopeDir depth [] st = Inr st"
| "walk_scoped f scopeDir depth (s # rest) st =
     (if \<not> isDirectory s then walk_scoped f scopeDir depth rest st
      else
        (case processPkg f (path_join scopeDir (ent_name s)) (found st) of
           Inl e \<Rightarrow> Inl (e, st)
         | Inr hits \<Rightarrow>
             (case (if existsSync f (path_join (path_join scopeDir (ent_name s)) ''node_modules'')
                    then walk f (path_join (path_join scopeDir (ent_name s)) ''node_modules'')
                           (depth + 1) (st\<lparr>found := hits\<rparr>)
                    else Inr (st\<lparr>found := hits\<rparr>)) of
                Inl thrown \<Rightarrow> Inl thrown
              | Inr st1 \<Rightarrow> walk_scoped f scopeDir depth rest st1)))"
  by pat_completeness auto

termination
  apply (relation "inv_image (less_than <*lex*> less_than)
     (\<lambda>x. case x of
        Inl (f, dir, depth, st) \<Rightarrow> (if depth > 6 then 0 else 3 * (7 - depth) + 3, 0)
      | Inr (Inl (f, dir, depth, ents, st)) \<Rightarrow> (3 * (7 - depth) + 2, length ents)
      | Inr (Inr (f, dir, depth, ents, st)) \<Rightarrow> (3 * (7 - depth) + 1, length ents))")
  apply auto
  done

text \<open>\<^verbatim>\<open>collectFromNodeModules()\<close>, for the project root the process runs in.\<close>

definition collectFromNodeModules :: "fs \<Rightarrow> path \<Rightarrow> error + inventory" where
  "collectFromNodeModules f projectRoot =
     (let nmRoot = path_join projectRoot ''node_modules'' in
      if \<not> existsSync f nmRoot then Inr []
      else case walk f nmRoot 0 \<lparr>found = [], dirsRead = []\<rparr> of
        Inl (e, st) \<Rightarrow> Inl e
      | Inr st \<Rightarrow> Inr (found st))"

text \<open>
  The merge of \<^verbatim>\<open>main\<close> copies the entries of \<^verbatim>\<open>lock\<close> into a new \<^verbatim>\<open>Map\<close> and
  then adds to the \<^verbatim>\<open>Set\<close> objects those entries refer to, so here the sets live in a
  store and a \<^verbatim>\<open>Map\<close> holds references: a store is the list of its sets, a reference an
  index into it, and \<^verbatim>\<open>new Set()\<close> appends an empty set.
\<close>

type_synonym store = "string list list"

type_synonym refmap = "(jsval \<times> nat) list"

text \<open>
  \<^verbatim>\<open>for (const v of vers) merged.get(name).add(v)\<close>, with \<open>target\<close> the reference
  \<^verbatim>\<open>merged.get(name)\<close> and the members of \<^verbatim>\<open>vers\<close> as they are when the loop starts.
  (Should \<^verbatim>\<open>vers\<close> be the target itself, the loop adds members the set already has and
  meets no new one.)
\<close>

fun merge_versions :: "nat \<Rightarrow> string list \<Rightarrow> store \<Rightarrow> store" where
  "merge_versions target [] h = h"
| "merge_versions target (v # vs) h = merge_versions target vs (h[target := Set_add (h ! target) v])"

text \<open>
  The loop over \<^verbatim>\<open>nm.entries()\<close>. On a name \<^verbatim>\<open>merged\<close> has, the target
  \<^verbatim>\<open>merged.get(name)\<close> is the set of that entry; on a name it lacks,
  \<^verbatim>\<open>merged.set(name, new Set())\<close> adds an entry last, and the target is that new set.
\<close>

fun merge_entries :: "refmap \<Rightarrow> refmap \<Rightarrow> store \<Rightarrow> refmap \<times> store" where
  "merge_entries [] merged h = (merged, h)"
| "merge_entries ((nm, vers) # rest) merged h =
     (let (merged1, h1, target) =
            (case Map_get merged nm of
               None \<Rightarrow> (merged @ [(nm, length h)], h @ [[]], length h)
             | Some t \<Rightarrow> (merged, h, t))
      in merge_entries rest merged1 (merge_versions target (h1 ! vers) h1))"

text \<open>
  \<^verbatim>\<open>const merged = new Map(lock)\<close> and the loop: the result is \<^verbatim>\<open>merged\<close> and the
  store after the loop.
\<close>

definition merge :: "refmap \<Rightarrow> refmap \<Rightarrow> store \<Rightarrow> refmap \<times> store" where
  "merge lock nm h = merge_entries nm lock h"

text \<open>The inventory a \<^verbatim>\<open>Map\<close> of references stands for in a store.\<close>

definition inventory_of :: "store \<Rightarrow> refmap \<Rightarrow> inventory" where
  "inventory_of h m = map (\<lambda>(nm, r). (nm, h ! r)) m"

text \<open>
  An inventory a collector returns, put in the store: every \<^verbatim>\<open>Set\<close> of it is an
  object of its own, created by \<open>add\<close>.
\<close>

fun alloc :: "inventory \<Rightarrow> store \<Rightarrow> refmap \<times> store" where
  "alloc [] h = ([], h)"
| "alloc ((nm, vs) # rest) h = (let (m, h') = alloc rest (h @ [vs]) in ((nm, length h) # m, h'))"

text \<open>
  The inventory \<^verbatim>\<open>main\<close> hands to \<open>compare\<close>: the sets of the two collected
  inventories are put in a store, \<^verbatim>\<open>nm\<close> first, the merge runs on that store, and
  \<^verbatim>\<open>merged\<close> is read off the store the merge leaves.
\<close>

definition mergedInventory :: "inventory \<Rightarrow> inventory \<Rightarrow> inventory" where
  "mergedInventory lock nm =
     (let (nmMap, h1) = alloc nm [];
          (lockMap, h2) = alloc lock h1;
          (merged, h3) = merge lockMap nmMap h2
      in inventory_of h3 merged)"

text \<open>
  \<^verbatim>\<open>main()\<close> of a run without \<^verbatim>\<open>--help\<close>, \<^verbatim>\<open>--list\<close> and \<^verbatim>\<open>--verbose\<close>, up to
  the findings it prints: an empty list is exit code 0, another one exit code 1.
\<close>

definition main :: "fs \<Rightarrow> path \<Rightarrow> path \<Rightarrow> error + finding list" where
  "main f projectRoot dirname =
     (case loadKnownBad f projectRoot dirname of
        Inl e \<Rightarrow> Inl e
      | Inr knownBad \<Rightarrow>
     (case collectFromNodeModules f projectRoot of
        Inl e \<Rightarrow> Inl e
      | Inr nm \<Rightarrow>
     (case collectFromPackageLock f projectRoot of
        Inl e \<Rightarrow> Inl e
      | Inr lock \<Rightarrow>
     (case compare (mergedInventory lock nm) knownBad of
        Inl e \<Rightarrow> Inl e
      | Inr findings \<Rightarrow> uniqFindings findings))))"

section \<open>Notions of the statements\<close>

text \<open>
  What the theorems below speak of and the program has no name for, and the file systems
  they are tried on.
\<close>

text \<open>
  A value that is neither an array nor an object: SameValueZero compares such values by
  what they are.
\<close>

fun primitive :: "jsval \<Rightarrow> bool" where
  "primitive (JArr xs) = False"
| "primitive (JObj kvs) = False"
| "primitive v = True"

text \<open>
  The keys of a \<^verbatim>\<open>Map\<close> are distinct: no key of the list is found again among the
  entries after it.
\<close>

fun distinct_keys :: "(jsval \<times> 'v) list \<Rightarrow> bool" where
  "distinct_keys [] = True"
| "distinct_keys ((k, v) # m) = (\<not> Map_has m k \<and> distinct_keys m)"

text \<open>
  What a \<^verbatim>\<open>Map\<close> of \<^verbatim>\<open>Set\<close>s is as a list of lists: no key twice, and no member
  twice in a set.
\<close>

definition wf_inventory :: "inventory \<Rightarrow> bool" where
  "wf_inventory I = (distinct_keys I \<and> list_all (\<lambda>e. distinct (snd e)) I)"

text \<open>The entry of the registry that the index keeps for a name: the last one with it.\<close>

definition lastNamed :: "jsval list \<Rightarrow> jsval \<Rightarrow> jsval option" where
  "lastNamed entries nm = find (\<lambda>e. sameValueZero (getprop e ''name'') nm) (rev entries)"

fun isStringOrNumber :: "jsval \<Rightarrow> bool" where
  "isStringOrNumber (JStr s) = True"
| "isStringOrNumber (JNum r) = True"
| "isStringOrNumber v = False"

text \<open>
  An element of the registry that supplies its bad versions the way the data source is
  documented: \<^verbatim>\<open>badVersions\<close> is an array (empty or not) of strings and numbers.
\<close>

definition suppliesBadVersions :: "jsval \<Rightarrow> bool" where
  "suppliesBadVersions entry =
     (case getprop entry ''badVersions'' of
        JArr bvs \<Rightarrow> list_all isStringOrNumber bvs
      | other \<Rightarrow> False)"

text \<open>
  What one entry of the installed map contributes to the findings: its versions that are
  in the bad set the index has for its name, in the order of its version set.
\<close>

definition matchesOf :: "(jsval \<times> string list) list \<Rightarrow> jsval \<times> string list \<Rightarrow> finding list" where
  "matchesOf idx e = (case Map_get idx (fst e) of None \<Rightarrow> []
      | Some bad \<Rightarrow> map (\<lambda>v. \<lparr>name = fst e, version = v\<rparr>) (filter (\<lambda>v. v \<in> set bad) (snd e)))"

text \<open>
  The string a name is printed as, \<^verbatim>\<open>String(v)\<close> where that conversion returns one.
\<close>

definition rendered :: "jsval \<Rightarrow> string" where
  "rendered v = (case String_js v of Inl e \<Rightarrow> [] | Inr s \<Rightarrow> s)"

text \<open>Whether an inventory has version \<open>v\<close> in the set of name \<open>nm\<close>.\<close>

definition has_version :: "inventory \<Rightarrow> jsval \<Rightarrow> string \<Rightarrow> bool" where
  "has_version hits nm v = (case Map_get hits nm of None \<Rightarrow> False | Some vs \<Rightarrow> v \<in> set vs)"

text \<open>A record of the flat map that the loop inventories: it and its version are truthy.\<close>

definition carries_version :: "jsval \<Rightarrow> bool" where
  "carries_version meta = (truthy meta \<and> truthy (getprop meta ''version''))"

text \<open>The state a run of the walk ends in, whether it returns or throws.\<close>

fun ending :: "(error \<times> scan) + scan \<Rightarrow> scan" where
  "ending (Inl (e, st)) = st"
| "ending (Inr st) = st"

text \<open>
  The reads a run adds to the log, all made at depths from \<open>depth\<close> to 6.
\<close>

definition reads_within :: "nat \<Rightarrow> scan \<Rightarrow> scan \<Rightarrow> bool" where
  "reads_within depth st st' =
     (\<exists>new. dirsRead st' = dirsRead st @ new \<and> (\<forall>(p, d) \<in> set new. depth \<le> d \<and> d \<le> 6))"

text \<open>The version set of a name, as a set; \<open>None\<close> when the name is not a key.\<close>

definition versions_of :: "store \<Rightarrow> refmap \<Rightarrow> jsval \<Rightarrow> string set option" where
  "versions_of h m nm = (case Map_get m nm of None \<Rightarrow> None | Some r \<Rightarrow> Some (set (h ! r)))"

text \<open>
  The union of two optional version sets, key by key: a name only one side has keeps its
  set, a name both have gets the union.
\<close>

definition union_versions :: "string set option \<Rightarrow> string set option \<Rightarrow> string set option" where
  "union_versions a b =
     (case a of
        None \<Rightarrow> b
      | Some x \<Rightarrow> (case b of None \<Rightarrow> Some x | Some y \<Rightarrow> Some (x \<union> y)))"

text \<open>
  A tree without end: every directory lists the package directory \<^verbatim>\<open>a\<close>, and every
  path exists, so every package has a manifest and a nested \<^verbatim>\<open>node_modules\<close>.
\<close>

definition endless :: fs where
  "endless =
     \<lparr>readdirSync = (\<lambda>p. Some [Dirent ''a'' True]),
      existsSync = (\<lambda>p. True),
      readJSON = (\<lambda>p. Some (JObj [(''name'', JStr ''a''), (''version'', JStr ''1.0.0'')]))\<rparr>"

text \<open>
  A tree whose manifests are not what npm writes. \<^verbatim>\<open>node_modules\<close> lists the package
  directories \<^verbatim>\<open>five\<close>, \<^verbatim>\<open>obj1\<close> and \<^verbatim>\<open>obj2\<close>: the name of the first manifest is
  the number \<^verbatim>\<open>5\<close>, the names of the other two are each the object \<^verbatim>\<open>{}\<close>.
\<close>

definition oddTree :: fs where
  "oddTree =
     \<lparr>readdirSync = (\<lambda>p.
        if p = [''proj'', ''node_modules'']
        then Some [Dirent ''five'' True, Dirent ''obj1'' True, Dirent ''obj2'' True]
        else None),
      existsSync = (\<lambda>p.
        p = [''proj'', ''node_modules'']
        \<or> p = [''proj'', ''node_modules'', ''five'', ''package.json'']
        \<or> p = [''proj'', ''node_modules'', ''obj1'', ''package.json'']
        \<or> p = [''proj'', ''node_modules'', ''obj2'', ''package.json'']),
      readJSON = (\<lambda>p.
        if p = [''proj'', ''node_modules'', ''five'', ''package.json'']
        then Some (JObj [(''name'', JNum ''5''), (''version'', JStr ''1.0.0'')])
        else if p = [''proj'', ''node_modules'', ''obj1'', ''package.json'']
        then Some (JObj [(''name'', JObj []), (''version'', JStr ''2.0.0'')])
        else if p = [''proj'', ''node_modules'', ''obj2'', ''package.json'']
        then Some (JObj [(''name'', JObj []), (''version'', JStr ''3.0.0'')])
        else None)\<rparr>"

text \<open>
  A tree on which the walk throws. \<^verbatim>\<open>node_modules\<close> lists the package \<^verbatim>\<open>deep\<close>,
  which has a nested \<^verbatim>\<open>node_modules\<close> with the package \<^verbatim>\<open>bad\<close>, whose version is the
  object \<^verbatim>\<open>{"toString": 1}\<close>, which \<^verbatim>\<open>String\<close> cannot convert.
\<close>

definition throwingTree :: fs where
  "throwingTree =
     \<lparr>readdirSync = (\<lambda>p.
        if p = [''proj'', ''node_modules''] then Some [Dirent ''deep'' True]
        else if p = [''proj'', ''node_modules'', ''deep'', ''node_modules'']
        then Some [Dirent ''bad'' True]
        else None),
      existsSync = (\<lambda>p.
        p = [''proj'', ''node_modules'']
        \<or> p = [''proj'', ''node_modules'', ''deep'', ''package.json'']
        \<or> p = [''proj'', ''node_modules'', ''deep'', ''node_modules'']
        \<or> p = [''proj'', ''node_modules'', ''deep'', ''node_modules'', ''bad'', ''package.json'']),
      readJSON = (\<lambda>p.
        if p = [''proj'', ''node_modules'', ''deep'', ''package.json'']
        then Some (JObj [(''name'', JStr ''deep''), (''version'', JStr ''1.0.0'')])
        else if p = [''proj'', ''node_modules'', ''deep'', ''node_modules'', ''bad'', ''package.json'']
        then Some (JObj [(''name'', JStr ''bad''),
                         (''version'', JObj [(''toString'', JNum ''1'')])])
        else None)\<rparr>"

text \<open>
  A tree with hidden directories: \<^verbatim>\<open>node_modules\<close> lists \<^verbatim>\<open>.bin\<close>,
  \<^verbatim>\<open>@scope\<close> and a file, \<^verbatim>\<open>@scope\<close> lists \<^verbatim>\<open>.hidden\<close>, and both hidden
  directories hold a manifest.
\<close>

definition hiddenTree :: fs where
  "hiddenTree =
     \<lparr>readdirSync = (\<lambda>p.
        if p = [''proj'', ''node_modules'']
        then Some [Dirent ''.bin'' True, Dirent ''@scope'' True, Dirent ''README.md'' False]
        else if p = [''proj'', ''node_modules'', ''@scope''] then Some [Dirent ''.hidden'' True]
        else None),
      existsSync = (\<lambda>p.
        p = [''proj'', ''node_modules'']
        \<or> p = [''proj'', ''node_modules'', ''.bin'', ''package.json'']
        \<or> p = [''proj'', ''node_modules'', ''@scope'', ''.hidden'', ''package.json'']),
      readJSON = (\<lambda>p.
        if p = [''proj'', ''node_modules'', ''.bin'', ''package.json'']
        then Some (JObj [(''name'', JStr ''dot-bin''), (''version'', JStr ''1.0.0'')])
        else if p = [''proj'', ''node_modules'', ''@scope'', ''.hidden'', ''package.json'']
        then Some (JObj [(''name'', JStr ''evil''), (''version'', JStr ''6.6.6'')])
        else None)\<rparr>"

text \<open>
  A tree with the scoped package \<^verbatim>\<open>@scope/pkg\<close>, version \<^verbatim>\<open>3.0.1\<close>, which has a
  package of its own nested below it.
\<close>

definition scopedTree :: fs where
  "scopedTree =
     \<lparr>readdirSync = (\<lambda>p.
        if p = [''proj'', ''node_modules''] then Some [Dirent ''@scope'' True]
        else if p = [''proj'', ''node_modules'', ''@scope''] then Some [Dirent ''pkg'' True]
        else if p = [''proj'', ''node_modules'', ''@scope'', ''pkg'', ''node_modules'']
        then Some [Dirent ''dep'' True]
        else None),
      existsSync = (\<lambda>p.
        p = [''proj'', ''node_modules'']
        \<or> p = [''proj'', ''node_modules'', ''@scope'', ''pkg'', ''package.json'']
        \<or> p = [''proj'', ''node_modules'', ''@scope'', ''pkg'', ''node_modules'']
        \<or> p = [''proj'', ''node_modules'', ''@scope'', ''pkg'', ''node_modules'', ''dep'',
                 ''package.json'']),
      readJSON = (\<lambda>p.
        if p = [''proj'', ''node_modules'', ''@scope'', ''pkg'', ''package.json'']
        then Some (JObj [(''name'', JStr ''@scope/pkg''), (''version'', JStr ''3.0.1'')])
        else if p = [''proj'', ''node_modules'', ''@scope'', ''pkg'', ''node_modules'', ''dep'',
                      ''package.json'']
        then Some (JObj [(''name'', JStr ''dep''), (''version'', JNum ''2'')])
        else None)\<rparr>"

text \<open>
  A project with one installed package and a lockfile, whose \<^verbatim>\<open>compromised.json\<close>
  parses to the given value.
\<close>

definition projectWithRegistry :: "jsval \<Rightarrow> fs" where
  "projectWithRegistry registry =
     \<lparr>readdirSync = (\<lambda>p.
        if p = [''proj'', ''node_modules''] then Some [Dirent ''pkg-a'' True] else None),
      existsSync = (\<lambda>p.
        p = [''proj'', ''compromised.json''] \<or> p = [''proj'', ''node_modules'']
        \<or> p = [''proj'', ''package-lock.json'']
        \<or> p = [''proj'', ''node_modules'', ''pkg-a'', ''package.json'']),
      readJSON = (\<lambda>p.
        if p = [''proj'', ''compromised.json''] then Some registry
        else if p = [''proj'', ''package-lock.json'']
        then Some (JObj [(''packages'',
               JObj [(''node_modules/pkg-a'', JObj [(''version'', JStr ''1.0.0'')])])])
        else if p = [''proj'', ''node_modules'', ''pkg-a'', ''package.json'']
        then Some (JObj [(''name'', JStr ''pkg-a''), (''version'', JStr ''1.0.0'')])
        else None)\<rparr>"

text \<open>
  A project whose one installed package has the number \<^verbatim>\<open>5\<close> as the name of its
  manifest, with a lockfile that records a package named by the string \<^verbatim>\<open>5\<close>, and a
  registry that lists both names.
\<close>

definition numberNamed :: fs where
  "numberNamed =
     \<lparr>readdirSync = (\<lambda>p.
        if p = [''proj'', ''node_modules''] then Some [Dirent ''five'' True] else None),
      existsSync = (\<lambda>p.
        p = [''proj'', ''compromised.json''] \<or> p = [''proj'', ''node_modules'']
        \<or> p = [''proj'', ''package-lock.json'']
        \<or> p = [''proj'', ''node_modules'', ''five'', ''package.json'']),
      readJSON = (\<lambda>p.
        if p = [''proj'', ''compromised.json'']
        then Some (JObj [(''packages'', JArr [
               JObj [(''name'', JNum ''5''), (''badVersions'', JArr [JStr ''1.0.0''])],
               JObj [(''name'', JStr ''5''), (''badVersions'', JArr [JStr ''1.0.0''])]])])
        else if p = [''proj'', ''package-lock.json'']
        then Some (JObj [(''packages'',
               JObj [(''node_modules/5'', JObj [(''version'', JStr ''1.0.0'')])])])
        else if p = [''proj'', ''node_modules'', ''five'', ''package.json'']
        then Some (JObj [(''name'', JNum ''5''), (''version'', JStr ''1.0.0'')])
        else None)\<rparr>"

text \<open>
  The data of \<^verbatim>\<open>test/test.js\<close>: \<^verbatim>\<open>testCompromisedData\<close>,
  \<^verbatim>\<open>testPackageLockData\<close>, and the fixture directory the command-line tests run in,
  which holds the two files and no \<^verbatim>\<open>node_modules\<close>.
\<close>

definition testCompromisedData :: jsval where
  "testCompromisedData =
     JObj [(''packages'', JArr [
       JObj [(''name'', JStr ''test-package-1''),
             (''badVersions'', JArr [JStr ''1.0.0'', JStr ''1.0.1''])],
       JObj [(''name'', JStr ''test-package-2''), (''badVersions'', JArr [JStr ''2.1.0''])],
       JObj [(''name'', JStr ''@scope/test-package''),
             (''badVersions'', JArr [JStr ''3.0.0'', JStr ''3.0.1'', JStr ''3.0.2''])],
       JObj [(''name'', JStr ''safe-package''), (''badVersions'', JArr [])]])]"

definition testPackageLockData :: jsval where
  "testPackageLockData =
     JObj [(''packages'', JObj [
       (''node_modules/test-package-1'', JObj [(''version'', JStr ''1.0.0'')]),
       (''node_modules/test-package-2'', JObj [(''version'', JStr ''2.1.0'')]),
       (''node_modules/@scope/test-package'', JObj [(''version'', JStr ''3.0.1'')]),
       (''node_modules/safe-package'', JObj [(''version'', JStr ''1.0.0'')]),
       (''node_modules/clean-package'', JObj [(''version'', JStr ''2.0.0'')])])]"

definition fixtures :: fs where
  "fixtures =
     \<lparr>readdirSync = (\<lambda>p. None),
      existsSync = (\<lambda>p.
        p = [''fixtures'', ''compromised.json''] \<or> p = [''fixtures'', ''package-lock.json'']),
      readJSON = (\<lambda>p.
        if p = [''fixtures'', ''compromised.json''] then Some testCompromisedData
        else if p = [''fixtures'', ''package-lock.json''] then Some testPackageLockData
        else None)\<rparr>"

text \<open>
  The first occurrences in a list under a key \<open>k\<close>, given the keys seen before it: the
  list the proofs about \<open>uniqFindings\<close> compare its filter with.
\<close>

fun keep_first :: "('a \<Rightarrow> string) \<Rightarrow> string list \<Rightarrow> 'a list \<Rightarrow> 'a list" where
  "keep_first k seen [] = []"
| "keep_first k seen (x # xs) =
     (if k x \<in> set seen then keep_first k seen xs else x # keep_first k (seen @ [k x]) xs)"

section \<open>Deduplication of findings\<close>

lemma String_js_error:
  "String_js v = Inl e \<Longrightarrow> e = TypeError"
  "String_elems vs = Inl e \<Longrightarrow> e = TypeError"
  by (induction v and vs arbitrary: e and e rule: String_js_String_elems.induct)
     (auto split: sum.splits if_splits)

lemma String_js_rendered: "String_js v = Inr s \<Longrightarrow> rendered v = s"
  by (simp add: rendered_def)

lemma String_js_cases:
  "String_js v = Inr (rendered v) \<or> String_js v = Inl TypeError"
proof (cases "String_js v")
  case (Inl e)
  with String_js_error(1) [OF Inl] show ?thesis by simp
next
  case (Inr s)
  then show ?thesis by (simp add: rendered_def)
qed

lemma upt_Suc_shift: "[0..<Suc n] = 0 # map Suc [0..<n]"
  by (simp add: upt_conv_Cons map_Suc_upt del: upt_Suc)

lemma keep_first_index:
  "keep_first k seen fs =
     map (\<lambda>i. fs ! i)
       (filter (\<lambda>i. k (fs ! i) \<notin> set seen \<union> set (map k (take i fs)))
          [0..<length fs])"
proof (induction fs arbitrary: seen)
  case Nil
  show ?case by simp
next
  case (Cons f fs)
  have shift: "[0..<length (f # fs)] = 0 # map Suc [0..<length fs]"
    using upt_Suc_shift [of "length fs"] by simp
  show ?case
  proof (cases "k f \<in> set seen")
    case True
    then have "(x \<notin> set seen \<and> x \<noteq> k f \<and> x \<notin> A) = (x \<notin> set seen \<and> x \<notin> A)"
      for x A by auto
    with True Cons.IH [of seen] show ?thesis
      unfolding shift by (simp add: filter_map comp_def del: upt_Suc)
  next
    case False
    have "(x \<notin> set seen \<and> x \<noteq> k f \<and> x \<notin> A)
        = (x \<noteq> k f \<and> x \<notin> set seen \<and> x \<notin> A)" for x A
      by auto
    with False Cons.IH [of "seen @ [k f]"] show ?thesis
      unfolding shift by (simp add: filter_map comp_def del: upt_Suc)
  qed
qed

lemma keep_first_subseq: "subseq (keep_first k seen fs) fs"
  by (induction fs arbitrary: seen) auto

lemma keep_first_subset: "set (keep_first k seen fs) \<subseteq> set fs"
  by (induction fs arbitrary: seen) auto

lemma keep_first_keys_fresh:
  "f \<in> set (keep_first k seen fs) \<Longrightarrow> k f \<notin> set seen"
proof (induction fs arbitrary: seen)
  case Nil
  then show ?case by simp
next
  case (Cons g fs)
  show ?case
  proof (cases "k g \<in> set seen")
    case True
    with Cons show ?thesis by simp
  next
    case False
    with Cons.prems have "f = g \<or> f \<in> set (keep_first k (seen @ [k g]) fs)"
      by simp
    then show ?thesis
    proof
      assume "f = g"
      with False show ?thesis by simp
    next
      assume "f \<in> set (keep_first k (seen @ [k g]) fs)"
      from Cons.IH [OF this] show ?thesis by simp
    qed
  qed
qed

lemma keep_first_distinct: "distinct (map k (keep_first k seen fs))"
proof (induction fs arbitrary: seen)
  case Nil
  then show ?case by simp
next
  case (Cons g fs)
  have "k g \<notin> k ` set (keep_first k (seen @ [k g]) fs)"
  proof
    assume "k g \<in> k ` set (keep_first k (seen @ [k g]) fs)"
    then obtain f where f: "f \<in> set (keep_first k (seen @ [k g]) fs)"
      and e: "k f = k g" by auto
    from keep_first_keys_fresh [OF f] e show False by simp
  qed
  with Cons.IH show ?case by simp
qed

lemma keep_first_fixpoint:
  "distinct (map k fs) \<Longrightarrow> set (map k fs) \<inter> set seen = {}
     \<Longrightarrow> keep_first k seen fs = fs"
  by (induction fs arbitrary: seen) auto

lemma keep_first_keys:
  "k ` set (keep_first k seen fs) = k ` set fs - set seen"
  by (induction fs arbitrary: seen) auto

lemma keep_first_map:
  "keep_first k seen (map g xs) = map g (keep_first (\<lambda>x. k (g x)) seen xs)"
  by (induction xs arbitrary: seen) auto

lemma finding_key_rendered:
  "String_js (name f) = Inr (rendered (name f)) \<Longrightarrow>
     finding_key f = Inr (rendered (name f) @ ''@'' @ version f)"
  by (simp add: finding_key_def)

lemma uniq_filter_keep_first:
  "\<forall>f \<in> set fs. String_js (name f) = Inr (rendered (name f)) \<Longrightarrow>
     uniq_filter seen fs
       = Inr (keep_first (\<lambda>g. rendered (name g) @ ''@'' @ version g) seen fs)"
  by (induction fs arbitrary: seen) (simp_all add: finding_key_rendered)

lemma uniq_filter_error: "uniq_filter seen fs = Inl e \<Longrightarrow> e = TypeError"
proof (induction fs arbitrary: seen)
  case Nil
  then show ?case by simp
next
  case (Cons f fs)
  then show ?case
    by (auto simp: finding_key_def split: sum.splits if_splits dest: String_js_error(1))
qed

lemma uniq_filter_throws:
  "f \<in> set fs \<Longrightarrow> String_js (name f) = Inl TypeError \<Longrightarrow> uniq_filter seen fs = Inl TypeError"
proof (induction fs arbitrary: seen)
  case Nil
  then show ?case by simp
next
  case (Cons g fs)
  show ?case
  proof (cases "uniq_filter seen (g # fs)")
    case (Inl e)
    with uniq_filter_error [OF Inl] show ?thesis by simp
  next
    case (Inr out)
    then obtain key where key: "finding_key g = Inr key"
      by (auto split: sum.splits)
    with Cons.prems have "f \<noteq> g" by (auto simp: finding_key_def)
    with Cons.prems have f: "f \<in> set fs" by simp
    show ?thesis
    proof (cases "key \<in> set seen")
      case True
      with key Cons.IH [OF f Cons.prems(2), of seen] show ?thesis by simp
    next
      case False
      with key Cons.IH [OF f Cons.prems(2), of "seen @ [key]"] show ?thesis by simp
    qed
  qed
qed

text \<open>
  C4. The key of a finding is the string \<^verbatim>\<open>name@version\<close>: its name as \<^verbatim>\<open>String\<close>
  renders it, an \<^verbatim>\<open>@\<close>, its version. When every name has such a rendering (a string is
  its own), \<open>uniqFindings\<close> returns, in input order, exactly the findings whose key does
  not occur earlier in the input, the first occurrence of every key: a subsequence of the
  input with the same keys, in which no key occurs twice, and which deduplicating again
  leaves as it is. A name that \<^verbatim>\<open>String\<close> cannot convert makes \<open>uniqFindings\<close> throw.
  For findings whose names are strings, given as the list \<open>ps\<close> of their names and
  versions, the key of \<open>(n, v)\<close> is \<open>n @ ''@'' @ v\<close>.
\<close>

theorem uniqFindings_first_occurrences:
  "((\<forall>f \<in> set fs. String_js (name f) = Inr (rendered (name f))) \<longrightarrow>
      (\<exists>out. uniqFindings fs = Inr out
         \<and> out = map (\<lambda>i. fs ! i)
             (filter (\<lambda>i. rendered (name (fs ! i)) @ ''@'' @ version (fs ! i)
                            \<notin> set (map (\<lambda>g. rendered (name g) @ ''@'' @ version g) (take i fs)))
                [0..<length fs])
         \<and> subseq out fs
         \<and> (\<lambda>g. rendered (name g) @ ''@'' @ version g) ` set out
             = (\<lambda>g. rendered (name g) @ ''@'' @ version g) ` set fs
         \<and> distinct (map (\<lambda>g. rendered (name g) @ ''@'' @ version g) out)
         \<and> uniqFindings out = Inr out))
   \<and> ((\<exists>f \<in> set fs. String_js (name f) = Inl TypeError) \<longrightarrow> uniqFindings fs = Inl TypeError)
   \<and> uniqFindings (map (\<lambda>(n, v). \<lparr>name = JStr n, version = v\<rparr>) ps)
       = Inr (map (\<lambda>(n, v). \<lparr>name = JStr n, version = v\<rparr>)
           (map (\<lambda>i. ps ! i)
             (filter (\<lambda>i. (\<lambda>(n, v). n @ ''@'' @ v) (ps ! i)
                            \<notin> set (map (\<lambda>(n, v). n @ ''@'' @ v) (take i ps)))
                [0..<length ps])))"
proof (intro conjI impI)
  let ?k = "\<lambda>g. rendered (name g) @ ''@'' @ version g"
  let ?out = "keep_first ?k [] fs"
  assume names: "\<forall>f \<in> set fs. String_js (name f) = Inr (rendered (name f))"
  have a: "uniqFindings fs = Inr ?out"
    using uniq_filter_keep_first [OF names, of "[]"] by (simp add: uniqFindings_def)
  have b: "?out = map (\<lambda>i. fs ! i)
             (filter (\<lambda>i. ?k (fs ! i) \<notin> set (map ?k (take i fs))) [0..<length fs])"
    using keep_first_index [of ?k "[]" fs] by simp
  have c: "subseq ?out fs" by (rule keep_first_subseq)
  have d: "?k ` set ?out = ?k ` set fs"
    using keep_first_keys [of ?k "[]" fs] by simp
  have e: "distinct (map ?k ?out)" by (rule keep_first_distinct)
  have "set ?out \<subseteq> set fs" by (rule keep_first_subset)
  with names have "\<forall>f \<in> set ?out. String_js (name f) = Inr (rendered (name f))" by blast
  from uniq_filter_keep_first [OF this, of "[]"] keep_first_fixpoint [of ?k ?out "[]"] e
  have f: "uniqFindings ?out = Inr ?out" by (simp add: uniqFindings_def)
  from a b c d e f
  show "\<exists>out. uniqFindings fs = Inr out
         \<and> out = map (\<lambda>i. fs ! i)
             (filter (\<lambda>i. ?k (fs ! i) \<notin> set (map ?k (take i fs))) [0..<length fs])
         \<and> subseq out fs
         \<and> ?k ` set out = ?k ` set fs
         \<and> distinct (map ?k out)
         \<and> uniqFindings out = Inr out"
    by (intro exI conjI)
next
  assume "\<exists>f \<in> set fs. String_js (name f) = Inl TypeError"
  then obtain f where "f \<in> set fs" "String_js (name f) = Inl TypeError" by blast
  from uniq_filter_throws [OF this, of "[]"] show "uniqFindings fs = Inl TypeError"
    by (simp add: uniqFindings_def)
next
  let ?k = "\<lambda>g. rendered (name g) @ ''@'' @ version g"
  let ?mk = "\<lambda>(n, v). \<lparr>name = JStr n, version = v\<rparr>"
  have names: "\<forall>f \<in> set (map ?mk ps). String_js (name f) = Inr (rendered (name f))"
    by (auto simp: rendered_def)
  have key: "(\<lambda>x. ?k (?mk x)) = (\<lambda>(n, v). n @ ''@'' @ v)"
    by (rule ext) (simp add: rendered_def split_beta)
  have "uniqFindings (map ?mk ps) = Inr (map ?mk (keep_first (\<lambda>(n, v). n @ ''@'' @ v) [] ps))"
    using uniq_filter_keep_first [OF names, of "[]"]
    by (simp only: uniqFindings_def keep_first_map key)
  then show "uniqFindings (map ?mk ps)
       = Inr (map ?mk
           (map (\<lambda>i. ps ! i)
             (filter (\<lambda>i. (\<lambda>(n, v). n @ ''@'' @ v) (ps ! i)
                            \<notin> set (map (\<lambda>(n, v). n @ ''@'' @ v) (take i ps)))
                [0..<length ps])))"
    using keep_first_index [of "\<lambda>(n, v). n @ ''@'' @ v" "[]" ps] by simp
qed

theorem uniqFindings_first_occurrences_witness:
  "uniqFindings
     [\<lparr>name = JStr ''a'', version = ''1''\<rparr>, \<lparr>name = JStr ''b'', version = ''2''\<rparr>,
      \<lparr>name = JStr ''a'', version = ''1''\<rparr>, \<lparr>name = JStr ''a'', version = ''2''\<rparr>,
      \<lparr>name = JNum ''5'', version = ''1''\<rparr>, \<lparr>name = JStr ''5'', version = ''1''\<rparr>]
   = Inr [\<lparr>name = JStr ''a'', version = ''1''\<rparr>, \<lparr>name = JStr ''b'', version = ''2''\<rparr>,
          \<lparr>name = JStr ''a'', version = ''2''\<rparr>, \<lparr>name = JNum ''5'', version = ''1''\<rparr>]
   \<and> uniqFindings
       [\<lparr>name = JStr ''a'', version = ''1''\<rparr>,
        \<lparr>name = JObj [(''toString'', JNum ''1'')], version = ''1''\<rparr>]
     = Inl TypeError
   \<and> uniqFindings
       [\<lparr>name = JStr ''a@b'', version = ''c''\<rparr>, \<lparr>name = JStr ''a'', version = ''b@c''\<rparr>]
     = Inr [\<lparr>name = JStr ''a@b'', version = ''c''\<rparr>]"
proof -
  let ?fs = "[\<lparr>name = JStr ''a'', version = ''1''\<rparr>, \<lparr>name = JStr ''b'', version = ''2''\<rparr>,
      \<lparr>name = JStr ''a'', version = ''1''\<rparr>, \<lparr>name = JStr ''a'', version = ''2''\<rparr>,
      \<lparr>name = JNum ''5'', version = ''1''\<rparr>, \<lparr>name = JStr ''5'', version = ''1''\<rparr>]"
  let ?gs = "[\<lparr>name = JStr ''a'', version = ''1''\<rparr>,
        \<lparr>name = JObj [(''toString'', JNum ''1'')], version = ''1''\<rparr>]"
  have names: "\<forall>f \<in> set ?fs. String_js (name f) = Inr (rendered (name f))"
    by (simp add: rendered_def)
  from uniqFindings_first_occurrences [of ?fs, THEN conjunct1, THEN mp, OF names]
  obtain out where a: "uniqFindings ?fs = Inr out"
    and b: "out = map (\<lambda>i. ?fs ! i)
             (filter (\<lambda>i. rendered (name (?fs ! i)) @ ''@'' @ version (?fs ! i)
                            \<notin> set (map (\<lambda>g. rendered (name g) @ ''@'' @ version g) (take i ?fs)))
                [0..<length ?fs])"
    by (elim exE conjE) (rule that; assumption)
  have c: "out = [\<lparr>name = JStr ''a'', version = ''1''\<rparr>, \<lparr>name = JStr ''b'', version = ''2''\<rparr>,
          \<lparr>name = JStr ''a'', version = ''2''\<rparr>, \<lparr>name = JNum ''5'', version = ''1''\<rparr>]"
    unfolding b by (simp add: rendered_def)
  have throws: "\<exists>f \<in> set ?gs. String_js (name f) = Inl TypeError" by simp
  from uniqFindings_first_occurrences [of ?gs, THEN conjunct2, THEN conjunct1, THEN mp, OF throws]
  have d: "uniqFindings ?gs = Inl TypeError" .
  from uniqFindings_first_occurrences
         [of _ "[(''a@b'', ''c''), (''a'', ''b@c'')]", THEN conjunct2, THEN conjunct2]
  have e: "uniqFindings
       [\<lparr>name = JStr ''a@b'', version = ''c''\<rparr>, \<lparr>name = JStr ''a'', version = ''b@c''\<rparr>]
     = Inr [\<lparr>name = JStr ''a@b'', version = ''c''\<rparr>]"
    by simp
  from a c d e show ?thesis by simp
qed

section \<open>Maps, sets and add\<close>

lemma sameValueZero_iff: "sameValueZero a b \<longleftrightarrow> primitive a \<and> a = b"
  by (cases a) auto

lemma sameValueZero_JStr: "sameValueZero k (JStr nm) \<longleftrightarrow> k = JStr nm"
  by (cases k) auto

lemma Map_get_primitive: "primitive k \<Longrightarrow> Map_get m k = map_of m k"
  by (induction m) (auto simp: sameValueZero_iff)

lemma Map_get_object: "\<not> primitive k \<Longrightarrow> Map_get m k = None"
  by (induction m) (auto simp: sameValueZero_iff)

lemma Map_has_get: "Map_has m k \<longleftrightarrow> Map_get m k \<noteq> None"
  by (induction m) auto

lemma Map_has_iff: "Map_has m k \<longleftrightarrow> primitive k \<and> k \<in> fst ` set m"
  by (induction m) (auto simp: sameValueZero_iff)

lemma distinct_keys_iff: "distinct_keys m \<longleftrightarrow> distinct (filter primitive (map fst m))"
  by (induction m) (force simp: Map_has_iff)+

lemma Map_get_mem: "Map_get m k = Some r \<Longrightarrow> (k, r) \<in> set m"
  by (induction m) (auto simp: sameValueZero_iff split: if_splits)

lemma Map_get_Some_primitive: "Map_get m k = Some r \<Longrightarrow> primitive k"
  using Map_get_object [of k m] by auto

lemma Map_get_distinct:
  "distinct_keys m \<Longrightarrow> primitive k \<Longrightarrow> Map_get m k = Some r \<longleftrightarrow> (k, r) \<in> set m"
proof (induction m)
  case Nil
  show ?case by simp
next
  case (Cons e m)
  obtain k' v' where e: "e = (k', v')" by (cases e)
  from Cons.prems e have nh: "\<not> Map_has m k'" and d: "distinct_keys m" by simp_all
  show ?case
  proof (cases "k' = k")
    case True
    with nh Cons.prems(2) have "k \<notin> fst ` set m" by (simp add: Map_has_iff)
    then have "(k, r) \<notin> set m" by force
    with True e Cons.prems(2) show ?thesis by (auto simp: sameValueZero_iff)
  next
    case False
    with e Cons.IH [OF d Cons.prems(2)] show ?thesis by (auto simp: sameValueZero_iff)
  qed
qed


lemma Map_get_set:
  "Map_get (Map_set m k x) k' = (if sameValueZero k k' then Some x else Map_get m k')"
  by (induction m) (auto simp: sameValueZero_iff)

lemma Map_get_append:
  "Map_get (m @ [(k, x)]) k' =
     (case Map_get m k' of
        Some v \<Rightarrow> Some v
      | None \<Rightarrow> if sameValueZero k k' then Some x else None)"
  by (induction m) auto

lemma Map_set_keys: "fst ` set (Map_set m k x) = insert k (fst ` set m)"
  by (induction m) (force simp: sameValueZero_iff)+

lemma Map_set_fst:
  "map fst (Map_set m k x) = (if Map_has m k then map fst m else map fst m @ [k])"
  by (induction m k x rule: Map_set.induct) (auto simp: sameValueZero_iff)

lemma Map_set_subset: "set (Map_set m k x) \<subseteq> insert (k, x) (set m)"
  by (induction m k x rule: Map_set.induct) (auto simp: sameValueZero_iff split: if_splits)

lemma Map_set_fresh: "\<not> Map_has m k \<Longrightarrow> Map_set m k v = m @ [(k, v)]"
  by (induction m) auto


lemma distinct_new_Set: "distinct s \<Longrightarrow> distinct (new_Set vs s)"
  by (induction vs arbitrary: s) (auto simp: Set_add_def)

lemma Set_add_distinct: "distinct s \<Longrightarrow> distinct (Set_add s v)"
  by (simp add: Set_add_def)

lemma wf_inventory_Nil: "wf_inventory []"
  by (simp add: wf_inventory_def)

lemma Map_set_wf:
  "wf_inventory m \<Longrightarrow> distinct s \<Longrightarrow> wf_inventory (Map_set m k s)"
  using Map_set_subset [of m k s]
  by (auto simp: wf_inventory_def distinct_keys_iff Map_set_fst Map_has_iff list_all_iff)

lemma append_wf:
  "wf_inventory m \<Longrightarrow> \<not> Map_has m k \<Longrightarrow> distinct s \<Longrightarrow> wf_inventory (m @ [(k, s)])"
  by (auto simp: wf_inventory_def distinct_keys_iff Map_has_iff)

lemma add_cases:
  assumes "add I nm ver = Inr I'"
  obtains v where "String_js ver = Inr v" "Map_get I nm = None" "I' = I @ [(nm, [v])]"
  | v s where "String_js ver = Inr v" "Map_get I nm = Some s" "primitive nm"
      "I' = Map_set I nm (Set_add s v)"
  using assms Map_get_Some_primitive [of I nm]
  by (auto simp: add_def Set_add_def split: sum.splits option.splits)


lemma add_get:
  assumes "add hits nm ver = Inr hits'"
  shows "\<exists>v. String_js ver = Inr v \<and>
           (\<forall>k. Map_get hits' k =
              (if sameValueZero nm k
               then Some (Set_add (case Map_get hits nm of None \<Rightarrow> [] | Some s \<Rightarrow> s) v)
               else Map_get hits k))"
  using assms
proof (cases rule: add_cases)
  case (1 v)
  have "Map_get (hits @ [(nm, [v])]) k =
              (if sameValueZero nm k then Some [v] else Map_get hits k)" for k
  proof (cases "sameValueZero nm k")
    case True
    then have "k = nm" by (simp add: sameValueZero_iff)
    with 1 True show ?thesis by (simp add: Map_get_append)
  next
    case False
    then show ?thesis by (simp add: Map_get_append split: option.splits)
  qed
  with 1 show ?thesis by (simp add: Set_add_def)
next
  case (2 v s)
  then show ?thesis by (auto simp: Map_get_set sameValueZero_iff)
qed

lemma add_keys:
  assumes "add hits nm ver = Inr hits'"
  shows "fst ` set hits' = insert nm (fst ` set hits)"
  using assms by (cases rule: add_cases) (auto simp: Map_set_keys)

lemma add_has_version:
  assumes "add hits nm ver = Inr hits'"
  shows "\<exists>v. String_js ver = Inr v \<and>
           (\<forall>k w. has_version hits' k w \<longleftrightarrow>
                    has_version hits k w \<or> (sameValueZero nm k \<and> w = v))"
proof -
  from add_get [OF assms] obtain v where v: "String_js ver = Inr v"
    and g: "\<And>k. Map_get hits' k =
              (if sameValueZero nm k
               then Some (Set_add (case Map_get hits nm of None \<Rightarrow> [] | Some s \<Rightarrow> s) v)
               else Map_get hits k)" by blast
  have "has_version hits' k w \<longleftrightarrow> has_version hits k w \<or> (sameValueZero nm k \<and> w = v)" for k w
    by (auto simp: has_version_def g Set_add_def sameValueZero_iff split: option.splits)
  with v show ?thesis by blast
qed

lemma add_wf:
  assumes "wf_inventory hits" and "add hits nm ver = Inr hits'"
  shows "wf_inventory hits'"
  using assms(2)
proof (cases rule: add_cases)
  case (1 v)
  then have "\<not> Map_has hits nm" by (simp add: Map_has_get)
  with 1 assms(1) show ?thesis by (simp add: append_wf)
next
  case (2 v s)
  from Map_get_mem [OF 2(2)] assms(1) have "distinct s"
    by (auto simp: wf_inventory_def list_all_iff)
  with 2 assms(1) show ?thesis by (simp add: Map_set_wf Set_add_distinct)
qed

section \<open>The comparator\<close>

lemma pushMatches_append:
  "pushMatches nm bad vs fs =
     fs @ map (\<lambda>v. \<lparr>name = nm, version = v\<rparr>) (filter (\<lambda>v. v \<in> set bad) vs)"
  by (induction vs arbitrary: fs) simp_all

lemma scanInstalled_append:
  "scanInstalled idx I fs = fs @ concat (map (matchesOf idx) I)"
  by (induction I arbitrary: fs) (auto simp: pushMatches_append matchesOf_def split: option.splits)

lemma matchesOf_names: "f \<in> set (matchesOf idx e) \<Longrightarrow> name f = fst e"
  by (auto simp: matchesOf_def split: option.splits)

lemma matchesOf_primitive: "f \<in> set (matchesOf idx e) \<Longrightarrow> primitive (fst e)"
proof (cases "Map_get idx (fst e)")
  case None
  assume "f \<in> set (matchesOf idx e)"
  with None show ?thesis by (simp add: matchesOf_def)
next
  case (Some bad)
  then show ?thesis by (rule Map_get_Some_primitive)
qed

lemma matchesOf_distinct: "distinct (snd e) \<Longrightarrow> distinct (matchesOf idx e)"
  by (auto simp: matchesOf_def distinct_map inj_on_def split: option.splits)

lemma concat_matches_distinct:
  "distinct_keys I \<Longrightarrow> (\<forall>e \<in> set I. distinct (snd e))
     \<Longrightarrow> distinct (concat (map (matchesOf idx) I))"
proof (induction I)
  case Nil
  show ?case by simp
next
  case (Cons e I)
  obtain k vs where e: "e = (k, vs)" by (cases e)
  from Cons.prems(1) e have nh: "\<not> Map_has I k" and d: "distinct_keys I" by simp_all
  have "set (matchesOf idx e) \<inter> set (concat (map (matchesOf idx) I)) = {}"
  proof (rule ccontr)
    assume "set (matchesOf idx e) \<inter> set (concat (map (matchesOf idx) I)) \<noteq> {}"
    then obtain f e' where f: "f \<in> set (matchesOf idx e)" and e': "e' \<in> set I"
      and f': "f \<in> set (matchesOf idx e')"
      by auto
    from matchesOf_names [OF f] matchesOf_names [OF f'] have "fst e' = fst e" by simp
    with e' e have "k \<in> fst ` set I" by force
    moreover from matchesOf_primitive [OF f] e have "primitive k" by simp
    ultimately show False using nh by (simp add: Map_has_iff)
  qed
  with Cons.IH [OF d] Cons.prems(2) show ?case by (simp add: matchesOf_distinct)
qed

lemma matchesOf_set:
  "set (matchesOf idx e) =
     {f. name f = fst e \<and> version f \<in> set (snd e)
         \<and> (\<exists>bad. Map_get idx (fst e) = Some bad \<and> version f \<in> set bad)}"
proof (cases "Map_get idx (fst e)")
  case None
  then show ?thesis by (simp add: matchesOf_def)
next
  case (Some bad)
  have "f \<in> (\<lambda>v. \<lparr>name = fst e, version = v\<rparr>) ` A \<longleftrightarrow> name f = fst e \<and> version f \<in> A"
    for f :: finding and A
    by (cases f) auto
  with Some show ?thesis by (auto simp: matchesOf_def)
qed

lemma matchesOf_mem:
  assumes "distinct_keys I"
  shows "\<lparr>name = nm, version = v\<rparr> \<in> set (concat (map (matchesOf idx) I)) \<longleftrightarrow>
     (\<exists>vs bad. Map_get I nm = Some vs \<and> Map_get idx nm = Some bad
        \<and> v \<in> set vs \<and> v \<in> set bad)"
proof -
  have "\<lparr>name = nm, version = v\<rparr> \<in> set (concat (map (matchesOf idx) I)) \<longleftrightarrow>
     (\<exists>e \<in> set I. fst e = nm \<and> v \<in> set (snd e)
         \<and> (\<exists>bad. Map_get idx nm = Some bad \<and> v \<in> set bad))"
    by (auto simp: matchesOf_set)
  also have "\<dots> \<longleftrightarrow> (\<exists>vs. (nm, vs) \<in> set I \<and> v \<in> set vs
         \<and> (\<exists>bad. Map_get idx nm = Some bad \<and> v \<in> set bad))"
    by force
  also have "\<dots> \<longleftrightarrow> (\<exists>vs bad. Map_get I nm = Some vs \<and> Map_get idx nm = Some bad
        \<and> v \<in> set vs \<and> v \<in> set bad)"
  proof (cases "primitive nm")
    case True
    from Map_get_distinct [OF assms True] show ?thesis by auto
  next
    case False
    then show ?thesis by (simp add: Map_get_object)
  qed
  finally show ?thesis .
qed

lemma matchesOf_index:
  "f \<in> set (concat (map (matchesOf idx) I)) \<Longrightarrow>
     \<exists>bad. Map_get idx (name f) = Some bad \<and> version f \<in> set bad"
  by (auto simp: matchesOf_set)


text \<open>
  C1. Let \<open>idx\<close> be the index \<open>compare\<close> derives from the registry \<open>K\<close>, and \<open>I\<close> an
  installed \<^verbatim>\<open>Map\<close> (its keys distinct, the members of each version set distinct; the
  inventory \<open>main\<close> merges is one, see \<open>main_compares_the_union\<close>).
  Then \<open>compare I K\<close> returns the findings entry by entry of \<open>I\<close> and, within an entry,
  version by version in the order of its set; \<open>{name, version}\<close> is among them exactly when
  \<open>name\<close> is a key of \<open>I\<close> and of the index and \<open>version\<close> is in both sets; and no finding
  is emitted twice.
\<close>

theorem compare_findings:
  assumes idx: "badIndexOf K = Inr idx"
    and wf: "wf_inventory I"
  shows "\<exists>fs. compare I K = Inr fs
    \<and> fs = concat (map (\<lambda>(nm, vs).
              case Map_get idx nm of
                None \<Rightarrow> []
              | Some bad \<Rightarrow> map (\<lambda>v. \<lparr>name = nm, version = v\<rparr>) (filter (\<lambda>v. v \<in> set bad) vs)) I)
    \<and> (\<forall>nm v. \<lparr>name = nm, version = v\<rparr> \<in> set fs \<longleftrightarrow>
          (\<exists>vs bad. Map_get I nm = Some vs \<and> Map_get idx nm = Some bad
             \<and> v \<in> set vs \<and> v \<in> set bad))
    \<and> distinct fs"
proof -
  from wf have keys: "distinct_keys I" and sets: "\<forall>e \<in> set I. distinct (snd e)"
    by (simp_all add: wf_inventory_def list_all_iff)
  let ?fs = "concat (map (matchesOf idx) I)"
  have c: "compare I K = Inr ?fs"
    using idx by (simp add: compare_def scanInstalled_append)
  have f: "matchesOf idx = (\<lambda>(nm, vs).
              case Map_get idx nm of
                None \<Rightarrow> []
              | Some bad \<Rightarrow> map (\<lambda>v. \<lparr>name = nm, version = v\<rparr>) (filter (\<lambda>v. v \<in> set bad) vs))"
    by (rule ext) (simp add: matchesOf_def split_beta)
  have m: "\<forall>nm v. \<lparr>name = nm, version = v\<rparr> \<in> set ?fs \<longleftrightarrow>
          (\<exists>vs bad. Map_get I nm = Some vs \<and> Map_get idx nm = Some bad
             \<and> v \<in> set vs \<and> v \<in> set bad)"
    using matchesOf_mem [OF keys] by blast
  have d: "distinct ?fs"
    using concat_matches_distinct [OF keys sets] .
  from c m d show ?thesis unfolding f by blast
qed

theorem compare_findings_witness:
  "compare [(JStr ''pkg-a'', [''1.0.0'']), (JStr ''pkg-b'', [''2.1.0'']),
            (JStr ''pkg-c'', [''9.9.9''])]
     (JObj [(''packages'', JArr [
        JObj [(''name'', JStr ''pkg-a''), (''badVersions'', JArr [JStr ''1.0.0'', JStr ''1.0.1''])],
        JObj [(''name'', JStr ''pkg-b''), (''badVersions'', JArr [JStr ''2.1.0''])]])])
   = Inr [\<lparr>name = JStr ''pkg-a'', version = ''1.0.0''\<rparr>,
          \<lparr>name = JStr ''pkg-b'', version = ''2.1.0''\<rparr>]"
proof -
  let ?K = "JObj [(''packages'', JArr [
        JObj [(''name'', JStr ''pkg-a''), (''badVersions'', JArr [JStr ''1.0.0'', JStr ''1.0.1''])],
        JObj [(''name'', JStr ''pkg-b''), (''badVersions'', JArr [JStr ''2.1.0''])]])]"
  let ?I = "[(JStr ''pkg-a'', [''1.0.0'']), (JStr ''pkg-b'', [''2.1.0'']),
             (JStr ''pkg-c'', [''9.9.9''])]"
  let ?idx = "[(JStr ''pkg-a'', [''1.0.0'', ''1.0.1'']), (JStr ''pkg-b'', [''2.1.0''])]"
  have h1: "badIndexOf ?K = Inr ?idx"
    by (simp add: badIndexOf_def nullish_def Set_add_def)
  have h2: "wf_inventory ?I" by (simp add: wf_inventory_def)
  from compare_findings [OF h1 h2] show ?thesis by simp
qed


lemma find_append_cases:
  "find P (xs @ ys) = (case find P xs of None \<Rightarrow> find P ys | Some x \<Rightarrow> Some x)"
  by (induction xs) auto

lemma lastNamed_Cons:
  "lastNamed (e # rest) nm =
     (case lastNamed rest nm of
        Some e' \<Rightarrow> Some e'
      | None \<Rightarrow> if sameValueZero (getprop e ''name'') nm then Some e else None)"
  by (simp add: lastNamed_def find_append_cases split: option.splits)

lemma buildIndex_get:
  "buildIndex entries idx0 = Inr idx \<Longrightarrow>
   (case lastNamed entries nm of
      None \<Rightarrow> Map_get idx nm = Map_get idx0 nm
    | Some e \<Rightarrow> \<exists>bvs ss. getprop e ''badVersions'' = JArr bvs \<and> map_String bvs = Inr ss
                 \<and> Map_get idx nm = Some (new_Set ss []))"
proof (induction entries arbitrary: idx0)
  case Nil
  then show ?case by (simp add: lastNamed_def)
next
  case (Cons e rest)
  from Cons.prems obtain bvs ss where
    bvs: "getprop e ''badVersions'' = JArr bvs" and ss: "map_String bvs = Inr ss"
    and rest: "buildIndex rest (Map_set idx0 (getprop e ''name'') (new_Set ss [])) = Inr idx"
    by (auto split: if_splits jsval.splits sum.splits)
  from Cons.IH [OF rest] bvs ss show ?case
    by (auto simp: lastNamed_Cons Map_get_set split: option.splits)
qed

lemma buildIndex_total:
  "(\<forall>e \<in> set entries. \<not> nullish e \<and>
      (\<exists>bvs ss. getprop e ''badVersions'' = JArr bvs \<and> map_String bvs = Inr ss))
   \<Longrightarrow> \<exists>idx. buildIndex entries idx0 = Inr idx"
  by (induction entries arbitrary: idx0) auto

lemma map_String_total: "list_all isStringOrNumber bvs \<Longrightarrow> \<exists>ss. map_String bvs = Inr ss"
proof (induction bvs)
  case Nil
  show ?case by simp
next
  case (Cons b bvs)
  then obtain ss where "map_String bvs = Inr ss" by auto
  moreover from Cons.prems obtain s where "String_js b = Inr s" by (cases b) auto
  ultimately show ?case by simp
qed

lemma getprop_not_nullish: "getprop v k = JArr xs \<Longrightarrow> \<not> nullish v"
  by (cases v) (auto simp: nullish_def)

lemma badIndexOf_packages:
  "getprop K ''packages'' = JArr entries \<Longrightarrow> badIndexOf K = buildIndex entries []"
  by (simp add: badIndexOf_def getprop_not_nullish)

lemma buildIndex_error: "buildIndex entries idx0 = Inl e \<Longrightarrow> e = TypeError"
proof (induction entries arbitrary: idx0)
  case Nil
  then show ?case by simp
next
  case (Cons x entries)
  have m: "map_String bvs = Inl e' \<Longrightarrow> e' = TypeError" for bvs e'
    by (induction bvs) (auto split: sum.splits dest: String_js_error(1))
  from Cons show ?case
    by (auto split: if_splits jsval.splits sum.splits dest: m)
qed

lemma buildIndex_not_array:
  "x \<in> set entries \<Longrightarrow> \<not> isArray (getprop x ''badVersions'')
     \<Longrightarrow> buildIndex entries idx0 = Inl TypeError"
proof (induction entries arbitrary: idx0)
  case Nil
  then show ?case by simp
next
  case (Cons y entries)
  show ?case
  proof (cases "buildIndex (y # entries) idx0")
    case (Inl e)
    with buildIndex_error [OF Inl] show ?thesis by simp
  next
    case (Inr idx)
    then obtain bvs ss where
      bvs: "getprop y ''badVersions'' = JArr bvs" and ss: "map_String bvs = Inr ss"
      and rest: "buildIndex entries (Map_set idx0 (getprop y ''name'') (new_Set ss [])) = Inr idx"
      by (auto split: if_splits jsval.splits sum.splits)
    from bvs Cons.prems have "x \<in> set entries" by auto
    from Cons.IH [OF this Cons.prems(2)] rest show ?thesis by simp
  qed
qed

text \<open>
  C7, as the code has it. Over a registry whose \<^verbatim>\<open>packages\<close> is an array,
  \<open>compare\<close> returns findings whenever every element carries a \<^verbatim>\<open>badVersions\<close>
  array of strings and numbers, and then a name whose indexed element (the last one with
  that name) has an empty \<^verbatim>\<open>badVersions\<close> has no finding, whatever is installed. An
  element whose \<^verbatim>\<open>badVersions\<close> is not an array (one that supplies none at all) makes
  \<open>compare\<close> throw a \<^verbatim>\<open>TypeError\<close>.
\<close>

theorem compare_total_on_badVersions_arrays:
  assumes pk: "getprop K ''packages'' = JArr entries"
  shows "((\<forall>e \<in> set entries. suppliesBadVersions e) \<longrightarrow>
            (\<exists>fs. compare I K = Inr fs \<and>
               (\<forall>nm e. lastNamed entries nm = Some e \<and> getprop e ''badVersions'' = JArr []
                  \<longrightarrow> (\<forall>f \<in> set fs. name f \<noteq> nm))))
       \<and> ((\<exists>e \<in> set entries. \<not> isArray (getprop e ''badVersions'')) \<longrightarrow>
            compare I K = Inl TypeError)"
proof (intro conjI impI)
  assume all: "\<forall>e \<in> set entries. suppliesBadVersions e"
  have "\<forall>e \<in> set entries. \<not> nullish e \<and>
      (\<exists>bvs ss. getprop e ''badVersions'' = JArr bvs \<and> map_String bvs = Inr ss)"
  proof
    fix e assume "e \<in> set entries"
    with all have "suppliesBadVersions e" by blast
    then obtain bvs where b: "getprop e ''badVersions'' = JArr bvs" and l: "list_all isStringOrNumber bvs"
      by (auto simp: suppliesBadVersions_def split: jsval.splits)
    from map_String_total [OF l] b getprop_not_nullish [OF b]
    show "\<not> nullish e \<and>
      (\<exists>bvs ss. getprop e ''badVersions'' = JArr bvs \<and> map_String bvs = Inr ss)" by blast
  qed
  from buildIndex_total [OF this] obtain idx where idx: "buildIndex entries [] = Inr idx" by blast
  let ?fs = "concat (map (matchesOf idx) I)"
  have c: "compare I K = Inr ?fs"
    using idx pk by (simp add: compare_def badIndexOf_packages scanInstalled_append)
  have "\<forall>nm e. lastNamed entries nm = Some e \<and> getprop e ''badVersions'' = JArr []
                  \<longrightarrow> (\<forall>f \<in> set ?fs. name f \<noteq> nm)"
  proof (intro allI impI ballI)
    fix nm e f
    assume l: "lastNamed entries nm = Some e \<and> getprop e ''badVersions'' = JArr []"
      and f: "f \<in> set ?fs"
    from buildIndex_get [OF idx, of nm] l have "Map_get idx nm = Some []" by auto
    with matchesOf_index [OF f] show "name f \<noteq> nm" by auto
  qed
  with c show "\<exists>fs. compare I K = Inr fs \<and>
               (\<forall>nm e. lastNamed entries nm = Some e \<and> getprop e ''badVersions'' = JArr []
                  \<longrightarrow> (\<forall>f \<in> set fs. name f \<noteq> nm))" by blast
next
  assume "\<exists>e \<in> set entries. \<not> isArray (getprop e ''badVersions'')"
  then obtain e where "e \<in> set entries" "\<not> isArray (getprop e ''badVersions'')" by blast
  from buildIndex_not_array [OF this] pk show "compare I K = Inl TypeError"
    by (simp add: compare_def badIndexOf_packages)
qed

text \<open>
  An element that supplies a name and no \<^verbatim>\<open>badVersions\<close>: \<open>compare\<close> does not return
  findings, \<^verbatim>\<open>entry.badVersions.map\<close> throws.
\<close>

theorem compare_missing_badVersions_counterexample:
  "compare [(JStr ''p'', [''1.0.0''])]
     (JObj [(''packages'', JArr [JObj [(''name'', JStr ''p'')]])])
     = Inl TypeError"
  by (simp add: compare_def badIndexOf_def nullish_def)

theorem compare_total_on_badVersions_arrays_witness:
  "(\<exists>fs. compare [(JStr ''safe-package'', [''1.0.0'']), (JStr ''test-package-2'', [''2.1.0''])]
           (JObj [(''packages'', JArr [
              JObj [(''name'', JStr ''test-package-2''), (''badVersions'', JArr [JStr ''2.1.0''])],
              JObj [(''name'', JStr ''safe-package''), (''badVersions'', JArr [])]])]) = Inr fs
        \<and> JStr ''safe-package'' \<notin> name ` set fs)
   \<and> compare [(JStr ''p'', [''1.0.0''])]
         (JObj [(''packages'', JArr [JObj [(''name'', JStr ''p''), (''badVersions'', JStr ''1.0.0'')]])])
       = Inl TypeError"
proof -
  let ?e1 = "JObj [(''name'', JStr ''test-package-2''), (''badVersions'', JArr [JStr ''2.1.0''])]"
  let ?e2 = "JObj [(''name'', JStr ''safe-package''), (''badVersions'', JArr [])]"
  let ?K = "JObj [(''packages'', JArr [?e1, ?e2])]"
  let ?I = "[(JStr ''safe-package'', [''1.0.0'']), (JStr ''test-package-2'', [''2.1.0''])]"
  have pk: "getprop ?K ''packages'' = JArr [?e1, ?e2]" by simp
  have all: "\<forall>e \<in> set [?e1, ?e2]. suppliesBadVersions e"
    by (simp add: suppliesBadVersions_def)
  have l: "lastNamed [?e1, ?e2] (JStr ''safe-package'') = Some ?e2
      \<and> getprop ?e2 ''badVersions'' = JArr []"
    by (simp add: lastNamed_def)
  from compare_total_on_badVersions_arrays [OF pk, of ?I, THEN conjunct1, THEN mp, OF all]
  obtain fs where c: "compare ?I ?K = Inr fs"
    and z: "\<forall>nm e. lastNamed [?e1, ?e2] nm = Some e \<and> getprop e ''badVersions'' = JArr []
                  \<longrightarrow> (\<forall>f \<in> set fs. name f \<noteq> nm)"
    by blast
  from z [THEN spec, THEN spec, THEN mp, OF l] have "JStr ''safe-package'' \<notin> name ` set fs"
    by (auto simp del: list.set)
  with c have a: "\<exists>fs. compare ?I ?K = Inr fs \<and> JStr ''safe-package'' \<notin> name ` set fs"
    by blast
  let ?e3 = "JObj [(''name'', JStr ''p''), (''badVersions'', JStr ''1.0.0'')]"
  let ?K' = "JObj [(''packages'', JArr [?e3])]"
  have pk': "getprop ?K' ''packages'' = JArr [?e3]" by simp
  have n: "\<exists>e \<in> set [?e3]. \<not> isArray (getprop e ''badVersions'')" by simp
  from compare_total_on_badVersions_arrays
         [OF pk', of "[(JStr ''p'', [''1.0.0''])]", THEN conjunct2, THEN mp, OF n]
  have b: "compare [(JStr ''p'', [''1.0.0''])] ?K' = Inl TypeError" .
  from a b show ?thesis by blast
qed



section \<open>The lockfile collector\<close>

lemma collectPackages_versions:
  "collectPackages entries hits = Inr hits' \<Longrightarrow>
   has_version hits' nm v \<longleftrightarrow>
     has_version hits nm v \<or>
     (\<exists>key meta. (key, meta) \<in> set entries \<and> carries_version meta
        \<and> nm = JStr (replace_install_root key) \<and> String_js (getprop meta ''version'') = Inr v)"
proof (induction entries arbitrary: hits)
  case Nil
  then show ?case by simp
next
  case (Cons e rest)
  obtain key meta where e: "e = (key, meta)" by (cases e)
  show ?case
  proof (cases "carries_version meta")
    case False
    with Cons.prems e have "collectPackages rest hits = Inr hits'"
      by (auto simp: carries_version_def)
    from Cons.IH [OF this] False e show ?thesis by auto
  next
    case True
    with Cons.prems e obtain h1 where
      a: "add hits (JStr (replace_install_root key)) (getprop meta ''version'') = Inr h1"
      and r: "collectPackages rest h1 = Inr hits'"
      by (auto simp: carries_version_def split: sum.splits)
    from add_has_version [OF a] obtain w where w: "String_js (getprop meta ''version'') = Inr w"
      and h: "\<And>k u. has_version h1 k u \<longleftrightarrow>
                has_version hits k u \<or> (k = JStr (replace_install_root key) \<and> u = w)"
      by auto
    show ?thesis
      unfolding Cons.IH [OF r] h e using True w by auto
  qed
qed

lemma collectPackages_keys:
  "collectPackages entries hits = Inr hits' \<Longrightarrow>
   fst ` set hits' = fst ` set hits \<union>
     (\<lambda>key. JStr (replace_install_root key))
       ` {key. \<exists>meta. (key, meta) \<in> set entries \<and> carries_version meta}"
proof (induction entries arbitrary: hits)
  case Nil
  then show ?case by simp
next
  case (Cons e rest)
  obtain key meta where e: "e = (key, meta)" by (cases e)
  show ?case
  proof (cases "carries_version meta")
    case False
    with Cons.prems e have "collectPackages rest hits = Inr hits'"
      by (auto simp: carries_version_def)
    from Cons.IH [OF this] False e show ?thesis by auto
  next
    case True
    with Cons.prems e obtain h1 where
      a: "add hits (JStr (replace_install_root key)) (getprop meta ''version'') = Inr h1"
      and r: "collectPackages rest h1 = Inr hits'"
      by (auto simp: carries_version_def split: sum.splits)
    show ?thesis
      unfolding Cons.IH [OF r] add_keys [OF a] e using True by auto
  qed
qed

lemma collectPackages_wf:
  "wf_inventory hits \<Longrightarrow> collectPackages entries hits = Inr hits' \<Longrightarrow> wf_inventory hits'"
proof (induction entries arbitrary: hits)
  case Nil
  then show ?case by simp
next
  case (Cons e rest)
  obtain key meta where e: "e = (key, meta)" by (cases e)
  show ?case
  proof (cases "carries_version meta")
    case False
    with Cons.prems e have "collectPackages rest hits = Inr hits'"
      by (auto simp: carries_version_def)
    from Cons.IH [OF Cons.prems(1) this] show ?thesis .
  next
    case True
    with Cons.prems e obtain h1 where
      a: "add hits (JStr (replace_install_root key)) (getprop meta ''version'') = Inr h1"
      and r: "collectPackages rest h1 = Inr hits'"
      by (auto simp: carries_version_def split: sum.splits)
    from Cons.IH [OF add_wf [OF Cons.prems(1) a] r] show ?thesis .
  qed
qed

lemma walkDeps_keeps:
  "(walkDeps obj hits = Inr hits' \<longrightarrow> has_version hits nm v \<longrightarrow> has_version hits' nm v)"
  "(walkDeps_entries kvs hits = Inr hits' \<longrightarrow> has_version hits nm v \<longrightarrow> has_version hits' nm v)"
proof (induction obj hits and kvs hits arbitrary: hits' and hits' rule: walkDeps_walkDeps_entries.induct)
  case (1 obj hits)
  then show ?case by auto
next
  case (2 hits)
  then show ?case by simp
next
  case (3 k meta rest hits)
  show ?case
  proof (intro impI)
    assume run: "walkDeps_entries ((k, meta) # rest) hits = Inr hits'" and hv: "has_version hits nm v"
    show "has_version hits' nm v"
    proof (cases "truthy meta")
      case False
      with run "3.IH"(1) hv show ?thesis by simp
    next
      case True
      from run True obtain h1 h2 where
        s1: "(if truthy (getprop meta ''version'') then add hits (JStr k) (getprop meta ''version'') else Inr hits) = Inr h1"
        and s2: "(if truthy (getprop meta ''dependencies'') then walkDeps (getprop meta ''dependencies'') h1 else Inr h1) = Inr h2"
        and s3: "walkDeps_entries rest h2 = Inr hits'"
        by (simp split: sum.splits)
      from s1 hv have v1: "has_version h1 nm v"
        using add_has_version by (fastforce split: if_splits)
      have v2: "has_version h2 nm v"
      proof (cases "truthy (getprop meta ''dependencies'')")
        case False
        with s2 v1 show ?thesis by simp
      next
        case d: True
        with s2 have w: "walkDeps (getprop meta ''dependencies'') h1 = Inr h2" by simp
        from "3.IH"(2) [of h1 h2] True s1 d
        have "walkDeps (getprop meta ''dependencies'') h1 = Inr h2 \<longrightarrow>
              has_version h1 nm v \<longrightarrow> has_version h2 nm v" by simp
        with w v1 show ?thesis by blast
      qed
      from "3.IH"(3) [of h1 h2 hits'] True s1 s2
      have "walkDeps_entries rest h2 = Inr hits' \<longrightarrow> has_version h2 nm v \<longrightarrow> has_version hits' nm v"
        by simp
      with s3 v2 show ?thesis by blast
    qed
  qed
qed

lemma walkDeps_wf:
  "walkDeps obj hits = Inr hits' \<longrightarrow> wf_inventory hits \<longrightarrow> wf_inventory hits'"
  "walkDeps_entries kvs hits = Inr hits' \<longrightarrow> wf_inventory hits \<longrightarrow> wf_inventory hits'"
proof (induction obj hits and kvs hits arbitrary: hits' and hits'
    rule: walkDeps_walkDeps_entries.induct)
  case (1 obj hits)
  then show ?case by auto
next
  case (2 hits)
  then show ?case by simp
next
  case (3 k meta rest hits)
  show ?case
  proof (intro impI)
    assume run: "walkDeps_entries ((k, meta) # rest) hits = Inr hits'" and wf: "wf_inventory hits"
    show "wf_inventory hits'"
    proof (cases "truthy meta")
      case False
      with run "3.IH"(1) wf show ?thesis by simp
    next
      case True
      from run True obtain h1 h2 where
        s1: "(if truthy (getprop meta ''version'')
              then add hits (JStr k) (getprop meta ''version'') else Inr hits) = Inr h1"
        and s2: "(if truthy (getprop meta ''dependencies'')
              then walkDeps (getprop meta ''dependencies'') h1 else Inr h1) = Inr h2"
        and s3: "walkDeps_entries rest h2 = Inr hits'"
        by (simp split: sum.splits)
      from s1 wf have w1: "wf_inventory h1"
        using add_wf by (auto split: if_splits)
      have w2: "wf_inventory h2"
      proof (cases "truthy (getprop meta ''dependencies'')")
        case False
        with s2 w1 show ?thesis by simp
      next
        case d: True
        with s2 have w: "walkDeps (getprop meta ''dependencies'') h1 = Inr h2" by simp
        from "3.IH"(2) [of h1 h2] True s1 d
        have "walkDeps (getprop meta ''dependencies'') h1 = Inr h2 \<longrightarrow>
              wf_inventory h1 \<longrightarrow> wf_inventory h2" by simp
        with w w1 show ?thesis by blast
      qed
      from "3.IH"(3) [of h1 h2 hits'] True s1 s2
      have "walkDeps_entries rest h2 = Inr hits' \<longrightarrow> wf_inventory h2 \<longrightarrow> wf_inventory hits'"
        by simp
      with s3 w2 show ?thesis by blast
    qed
  qed
qed

lemma collectFromPackageLock_wf:
  assumes "collectFromPackageLock f projectRoot = Inr lock"
  shows "wf_inventory lock"
proof -
  let ?lock = "readJSONSafe f (path_join projectRoot ''package-lock.json'')"
  let ?pk = "getprop ?lock ''packages''"
  let ?deps = "getprop ?lock ''dependencies''"
  show ?thesis
  proof (cases "existsSync f (path_join projectRoot ''package-lock.json'') \<and> truthy ?lock")
    case False
    with assms have "lock = []"
      by (auto simp: collectFromPackageLock_def Let_def split: if_splits)
    then show ?thesis by (simp add: wf_inventory_Nil)
  next
    case True
    with assms obtain hits where
      flat: "(if truthy ?pk \<and> typeof_object ?pk
              then collectPackages (Object_entries ?pk) [] else Inr []) = Inr hits"
      and deps: "(if truthy ?deps then walkDeps ?deps hits else Inr hits) = Inr lock"
      by (auto simp: collectFromPackageLock_def Let_def split: sum.splits)
    from flat have "wf_inventory hits"
      using collectPackages_wf [OF wf_inventory_Nil] by (auto simp: wf_inventory_Nil split: if_splits)
    with deps show ?thesis
      using walkDeps_wf(1) [of ?deps hits lock] by (auto split: if_splits)
  qed
qed

lemma replace_install_root_prefix: "replace_install_root (''node_modules/'' @ rest) = rest"
  by (simp add: replace_install_root_def startsWith_def)

lemma replace_install_root_other:
  "\<not> startsWith key ''node_modules/'' \<Longrightarrow> replace_install_root key = key"
  by (simp add: replace_install_root_def)

lemma getprop_JObj_truthy: "getprop v k = JObj kvs \<Longrightarrow> truthy v"
  by (cases v) auto

text \<open>
  C10. When the lockfile is read and its \<^verbatim>\<open>packages\<close> is an object, the flat-map loop
  returns an inventory \<open>hits\<close> in which a name has a version exactly when a record with a
  truthy \<^verbatim>\<open>version\<close> has that name as its key with one leading \<^verbatim>\<open>node_modules/\<close>
  removed (a key without that prefix unchanged) and that version as \<^verbatim>\<open>String(version)\<close>;
  the names of \<open>hits\<close> are exactly those keys so rewritten, and all of it is still in the
  inventory the collector returns. The empty key stays the empty name, and
  \<^verbatim>\<open>node_modules/a/node_modules/b\<close> becomes \<^verbatim>\<open>a/node_modules/b\<close>.
\<close>

theorem lockfile_flat_map_names:
  assumes ex: "existsSync f (path_join projectRoot ''package-lock.json'')"
    and rd: "readJSON f (path_join projectRoot ''package-lock.json'') = Some lock"
    and pk: "getprop lock ''packages'' = JObj records"
    and run: "collectFromPackageLock f projectRoot = Inr final"
  shows "\<exists>hits. collectPackages records [] = Inr hits
    \<and> (\<forall>nm v. has_version hits nm v \<longleftrightarrow>
          (\<exists>key meta. (key, meta) \<in> set records \<and> carries_version meta
             \<and> nm = JStr (replace_install_root key)
             \<and> String_js (getprop meta ''version'') = Inr v))
    \<and> fst ` set hits =
          (\<lambda>key. JStr (replace_install_root key))
            ` {key. \<exists>meta. (key, meta) \<in> set records \<and> carries_version meta}
    \<and> (\<forall>nm v. has_version hits nm v \<longrightarrow> has_version final nm v)
    \<and> (\<forall>rest. replace_install_root (''node_modules/'' @ rest) = rest)
    \<and> (\<forall>key. \<not> startsWith key ''node_modules/'' \<longrightarrow> replace_install_root key = key)
    \<and> replace_install_root '''' = ''''
    \<and> replace_install_root ''node_modules/a/node_modules/b'' = ''a/node_modules/b''"
proof -
  have lock: "readJSONSafe f (path_join projectRoot ''package-lock.json'') = lock"
    using rd by (simp add: readJSONSafe_def)
  have t: "truthy lock" using pk by (rule getprop_JObj_truthy)
  from run ex lock t pk obtain hits where
    flat: "collectPackages records [] = Inr hits"
    and deps: "(if truthy (getprop lock ''dependencies'')
                then walkDeps (getprop lock ''dependencies'') hits else Inr hits) = Inr final"
    by (simp add: collectFromPackageLock_def Let_def split: sum.splits)
  have a: "\<forall>nm v. has_version hits nm v \<longleftrightarrow>
          (\<exists>key meta. (key, meta) \<in> set records \<and> carries_version meta
             \<and> nm = JStr (replace_install_root key)
             \<and> String_js (getprop meta ''version'') = Inr v)"
    using collectPackages_versions [OF flat] by (simp add: has_version_def)
  have b: "fst ` set hits =
          (\<lambda>key. JStr (replace_install_root key))
            ` {key. \<exists>meta. (key, meta) \<in> set records \<and> carries_version meta}"
    using collectPackages_keys [OF flat] by simp
  have c: "\<forall>nm v. has_version hits nm v \<longrightarrow> has_version final nm v"
    using deps walkDeps_keeps(1) [of "getprop lock ''dependencies''" hits final]
    by (auto split: if_splits)
  have d: "replace_install_root '''' = ''''"
    by (simp add: replace_install_root_def startsWith_def)
  have e: "replace_install_root ''node_modules/a/node_modules/b'' = ''a/node_modules/b''"
    by (simp add: replace_install_root_def startsWith_def)
  from flat a b c d e replace_install_root_prefix replace_install_root_other
  show ?thesis by blast
qed

theorem lockfile_flat_map_names_witness:
  "collectFromPackageLock
     \<lparr>readdirSync = (\<lambda>p. None),
      existsSync = (\<lambda>p. p = [''proj'', ''package-lock.json'']),
      readJSON = (\<lambda>p. if p = [''proj'', ''package-lock.json'']
        then Some (JObj [(''packages'', JObj [
               ('''', JObj [(''version'', JStr ''0.1.0'')]),
               (''node_modules/a/node_modules/b'', JObj [(''version'', JStr ''2.0.0'')])])])
        else None)\<rparr>
     [''proj'']
   = Inr [(JStr '''', [''0.1.0'']), (JStr ''a/node_modules/b'', [''2.0.0''])]
   \<and> fst ` set [(JStr '''', [''0.1.0'']), (JStr ''a/node_modules/b'', [''2.0.0''])]
       = (\<lambda>key. JStr (replace_install_root key)) ` {'''', ''node_modules/a/node_modules/b''}
   \<and> JStr ''b'' \<notin> fst ` set [(JStr '''', [''0.1.0'']),
         (JStr ''a/node_modules/b'', [''2.0.0''::string])]"
proof -
  let ?records = "[('''', JObj [(''version'', JStr ''0.1.0'')]),
                  (''node_modules/a/node_modules/b'', JObj [(''version'', JStr ''2.0.0'')])]"
  let ?lock = "JObj [(''packages'', JObj ?records)]"
  let ?f = "\<lparr>readdirSync = (\<lambda>p. None),
      existsSync = (\<lambda>p. p = [''proj'', ''package-lock.json'']),
      readJSON = (\<lambda>p. if p = [''proj'', ''package-lock.json''] then Some ?lock else None)\<rparr>"
  let ?final = "[(JStr '''', [''0.1.0'']), (JStr ''a/node_modules/b'', [''2.0.0''])]"
  have ex: "existsSync ?f (path_join [''proj''] ''package-lock.json'')"
    by (simp add: path_join_def)
  have rd: "readJSON ?f (path_join [''proj''] ''package-lock.json'') = Some ?lock"
    by (simp add: path_join_def)
  have pk: "getprop ?lock ''packages'' = JObj ?records" by simp
  have run: "collectFromPackageLock ?f [''proj''] = Inr ?final"
    by (simp add: collectFromPackageLock_def path_join_def readJSONSafe_def add_def
          Set_add_def replace_install_root_def startsWith_def)
  from lockfile_flat_map_names [OF ex rd pk run] obtain hits where
    h: "collectPackages ?records [] = Inr hits"
    and k: "fst ` set hits =
          (\<lambda>key. JStr (replace_install_root key))
            ` {key. \<exists>meta. (key, meta) \<in> set ?records \<and> carries_version meta}"
    by (elim exE conjE) (rule that; assumption)
  have "collectPackages ?records [] = Inr ?final"
    by (simp add: add_def Set_add_def replace_install_root_def startsWith_def)
  with h have hits: "hits = ?final" by simp
  have "{key. \<exists>meta. (key, meta) \<in> set ?records \<and> carries_version meta}
      = {'''', ''node_modules/a/node_modules/b''}"
    by (auto simp: carries_version_def)
  with k hits have "fst ` set ?final
      = (\<lambda>key. JStr (replace_install_root key)) ` {'''', ''node_modules/a/node_modules/b''}"
    by simp
  moreover have "JStr ''b'' \<notin> fst ` set [(JStr '''', [''0.1.0'']),
      (JStr ''a/node_modules/b'', [''2.0.0''::string])]"
    by simp
  ultimately show ?thesis using run by simp
qed
section \<open>The walk over node_modules\<close>

lemma reads_within_refl: "reads_within depth st st"
  by (simp add: reads_within_def)

lemma reads_within_trans:
  "reads_within d st st1 \<Longrightarrow> reads_within d' st1 st2 \<Longrightarrow> d \<le> d' \<Longrightarrow> reads_within d st st2"
  unfolding reads_within_def by fastforce

lemma reads_within_reading: "depth \<le> 6 \<Longrightarrow> reads_within depth st (reading dir depth st)"
  by (simp add: reads_within_def reading_def)

lemma reads_within_found: "reads_within depth st (st\<lparr>found := hits\<rparr>)"
  by (simp add: reads_within_def)

lemma walk_reads:
  "reads_within depth st (ending (walk f dir depth st))"
  "depth \<le> 6 \<longrightarrow> reads_within depth st (ending (walk_entries f dir depth ents st))"
  "depth \<le> 6 \<longrightarrow> reads_within depth st (ending (walk_scoped f dir depth ents st))"
proof (induction f dir depth st and f dir depth ents st and f dir depth ents st
    rule: walk_walk_entries_walk_scoped.induct)
  case (1 f dir depth st)
  show ?case
  proof (cases "depth > 6")
    case True
    then show ?thesis by (simp add: reads_within_refl)
  next
    case False
    then have d: "depth \<le> 6" by simp
    show ?thesis
    proof (cases "readdirSync f dir")
      case None
      with False d show ?thesis by (simp add: reads_within_reading)
    next
      case (Some entries)
      from "1.IH" [OF False Some] d
      have "reads_within depth (reading dir depth st)
              (ending (walk_entries f dir depth entries (reading dir depth st)))"
        by blast
      from reads_within_trans [OF reads_within_reading [OF d] this] False Some
      show ?thesis by simp
    qed
  qed
next
  case (2 f dir depth st)
  show ?case by (simp add: reads_within_refl)
next
  case (3 f dir depth ent rest st)
  show ?case
  proof (intro impI)
    assume d: "depth \<le> 6"
    let ?p = "path_join dir (ent_name ent)"
    let ?n = "path_join ?p ''node_modules''"
    show "reads_within depth st (ending (walk_entries f dir depth (ent # rest) st))"
    proof (cases "\<not> isDirectory ent \<or> startsWith (ent_name ent) ''.''")
      case True
      with "3.IH"(1) [OF True] d show ?thesis by simp
    next
      case skip: False
      show ?thesis
      proof (cases "startsWith (ent_name ent) ''@''")
        case True
        show ?thesis
        proof (cases "readdirSync f ?p")
          case None
          from "3.IH"(2) [OF skip True None] d
          have "reads_within depth (reading ?p depth st)
                  (ending (walk_entries f dir depth rest (reading ?p depth st)))"
            by blast
          from reads_within_trans [OF reads_within_reading [OF d] this] skip True None
          show ?thesis by simp
        next
          case (Some scoped)
          let ?r = "walk_scoped f ?p depth scoped (reading ?p depth st)"
          from "3.IH"(3) [OF skip True Some] d
          have a: "reads_within depth (reading ?p depth st) (ending ?r)" by blast
          from reads_within_trans [OF reads_within_reading [OF d] a]
          have a': "reads_within depth st (ending ?r)" by simp
          show ?thesis
          proof (cases ?r)
            case (Inl thrown)
            with a' skip True Some show ?thesis by simp
          next
            case (Inr st1)
            from "3.IH"(4) [OF skip True Some Inr] d
            have "reads_within depth st1 (ending (walk_entries f dir depth rest st1))"
              by blast
            from reads_within_trans [OF a' [unfolded Inr ending.simps] this]
              skip True Some Inr
            show ?thesis by simp
          qed
        qed
      next
        case False
        show ?thesis
        proof (cases "processPkg f ?p (found st)")
          case (Inl e)
          with skip False show ?thesis by (simp add: reads_within_refl)
        next
          case (Inr hits)
          let ?r = "if existsSync f ?n then walk f ?n (depth + 1) (st\<lparr>found := hits\<rparr>)
                    else Inr (st\<lparr>found := hits\<rparr>)"
          have a: "reads_within depth (st\<lparr>found := hits\<rparr>) (ending ?r)"
          proof (cases "existsSync f ?n")
            case True
            from "3.IH"(5) [OF skip False Inr True]
            have "reads_within (depth + 1) (st\<lparr>found := hits\<rparr>)
                    (ending (walk f ?n (depth + 1) (st\<lparr>found := hits\<rparr>)))" .
            from reads_within_trans [OF reads_within_refl this] True show ?thesis by simp
          next
            case False
            then show ?thesis by (simp add: reads_within_refl)
          qed
          from reads_within_trans [OF reads_within_found a]
          have a': "reads_within depth st (ending ?r)" by simp
          show ?thesis
          proof (cases ?r)
            case thrown: (Inl thrown)
            with a' skip False Inr show ?thesis by simp
          next
            case st1: (Inr st1)
            from "3.IH"(6) [OF skip False Inr st1] d
            have "reads_within depth st1 (ending (walk_entries f dir depth rest st1))"
              by blast
            from reads_within_trans [OF a' [unfolded st1 ending.simps] this]
              skip False Inr st1
            show ?thesis by simp
          qed
        qed
      qed
    qed
  qed
next
  case (4 f scopeDir depth st)
  show ?case by (simp add: reads_within_refl)
next
  case (5 f scopeDir depth s rest st)
  show ?case
  proof (intro impI)
    assume d: "depth \<le> 6"
    let ?p = "path_join scopeDir (ent_name s)"
    let ?n = "path_join ?p ''node_modules''"
    show "reads_within depth st (ending (walk_scoped f scopeDir depth (s # rest) st))"
    proof (cases "\<not> isDirectory s")
      case True
      with "5.IH"(1) [OF True] d show ?thesis by simp
    next
      case False
      show ?thesis
      proof (cases "processPkg f ?p (found st)")
        case (Inl e)
        with False show ?thesis by (simp add: reads_within_refl)
      next
        case (Inr hits)
        let ?r = "if existsSync f ?n then walk f ?n (depth + 1) (st\<lparr>found := hits\<rparr>)
                  else Inr (st\<lparr>found := hits\<rparr>)"
        have a: "reads_within depth (st\<lparr>found := hits\<rparr>) (ending ?r)"
        proof (cases "existsSync f ?n")
          case True
          from "5.IH"(2) [OF False Inr True]
          have "reads_within (depth + 1) (st\<lparr>found := hits\<rparr>)
                  (ending (walk f ?n (depth + 1) (st\<lparr>found := hits\<rparr>)))" .
          from reads_within_trans [OF reads_within_refl this] True show ?thesis by simp
        next
          case False
          then show ?thesis by (simp add: reads_within_refl)
        qed
        from reads_within_trans [OF reads_within_found a]
        have a': "reads_within depth st (ending ?r)" by simp
        show ?thesis
        proof (cases ?r)
          case thrown: (Inl thrown)
          with a' False Inr show ?thesis by simp
        next
          case st1: (Inr st1)
          from "5.IH"(3) [OF False Inr st1] d
          have "reads_within depth st1 (ending (walk_scoped f scopeDir depth rest st1))"
            by blast
          from reads_within_trans [OF a' [unfolded st1 ending.simps] this]
            False Inr st1
          show ?thesis by simp
        qed
      qed
    qed
  qed
qed

lemma walk_reads_dir:
  assumes "depth \<le> 6"
  shows "\<exists>more. dirsRead (ending (walk f dir depth st)) = dirsRead st @ (dir, depth) # more
           \<and> (\<forall>(p, d) \<in> set more. depth \<le> d \<and> d \<le> 6)"
proof (cases "readdirSync f dir")
  case None
  with assms have "walk f dir depth st = Inr (reading dir depth st)" by simp
  then show ?thesis by (simp add: reading_def)
next
  case (Some entries)
  with assms have w: "walk f dir depth st = walk_entries f dir depth entries (reading dir depth st)"
    by simp
  from walk_reads(2) [of depth "reading dir depth st" f dir entries] assms
  obtain new where "dirsRead (ending (walk_entries f dir depth entries (reading dir depth st)))
      = dirsRead (reading dir depth st) @ new"
    and "\<forall>(p, d) \<in> set new. depth \<le> d \<and> d \<le> 6"
    unfolding reads_within_def by blast
  then show ?thesis unfolding w by (simp add: reading_def)
qed

lemma reading_found: "found (reading dir depth st) = found st"
  by (simp add: reading_def)

lemma processPkg_wf:
  "wf_inventory hits \<Longrightarrow> processPkg f pkgDir hits = Inr hits' \<Longrightarrow> wf_inventory hits'"
  by (auto simp: processPkg_def Let_def split: if_splits dest: add_wf)

lemma processPkg_error: "processPkg f pkgDir hits = Inl e \<Longrightarrow> e = TypeError"
  by (auto simp: processPkg_def Let_def add_def split: if_splits sum.splits option.splits
      dest: String_js_error(1))

lemma walk_wf:
  "wf_inventory (found st) \<longrightarrow> wf_inventory (found (ending (walk f dir depth st)))"
  "wf_inventory (found st) \<longrightarrow> wf_inventory (found (ending (walk_entries f dir depth ents st)))"
  "wf_inventory (found st) \<longrightarrow> wf_inventory (found (ending (walk_scoped f dir depth ents st)))"
proof (induction f dir depth st and f dir depth ents st and f dir depth ents st
    rule: walk_walk_entries_walk_scoped.induct)
  case (1 f dir depth st)
  then show ?case by (auto simp: reading_found split: option.splits)
next
  case (2 f dir depth st)
  show ?case by simp
next
  case (3 f dir depth ent rest st)
  then show ?case
    by (auto simp: reading_found split: option.splits sum.splits dest: processPkg_wf)
next
  case (4 f scopeDir depth st)
  show ?case by simp
next
  case (5 f scopeDir depth s rest st)
  then show ?case
    by (auto simp: reading_found split: option.splits sum.splits dest: processPkg_wf)
qed

lemma collectFromNodeModules_wf:
  assumes "collectFromNodeModules f projectRoot = Inr nm"
  shows "wf_inventory nm"
proof (cases "existsSync f (path_join projectRoot ''node_modules'')")
  case False
  with assms show ?thesis by (simp add: collectFromNodeModules_def wf_inventory_Nil)
next
  case True
  with assms obtain st where
    w: "walk f (path_join projectRoot ''node_modules'') 0 \<lparr>found = [], dirsRead = []\<rparr> = Inr st"
    and n: "nm = found st"
    by (auto simp: collectFromNodeModules_def Let_def split: sum.splits)
  have "wf_inventory (found \<lparr>found = [], dirsRead = []\<rparr>)"
    by (simp add: wf_inventory_Nil)
  with walk_wf(1) [of "\<lparr>found = [], dirsRead = []\<rparr>" f
      "path_join projectRoot ''node_modules''" 0]
  have "wf_inventory (found (ending
      (walk f (path_join projectRoot ''node_modules'') 0 \<lparr>found = [], dirsRead = []\<rparr>)))"
    by blast
  then show ?thesis unfolding w n by simp
qed

text \<open>
  C8. \<open>walk\<close> is a total function, its termination proved from the depth alone, for
  every file system, also one whose tree is cyclic or has no end, and whatever the manifests
  hold. A call at a depth above 6 returns the state it was given: nothing is read. A call
  at a depth up to 6 reads its directory first. And in every run, whether it returns or
  ends with the exception of \<open>add\<close>, each directory read is read by a call at a depth
  between the depth the run started at and 6: a run from depth 0 reads the root and at most
  6 levels of nested \<^verbatim>\<open>node_modules\<close> below it.
\<close>

theorem walk_depth_bounded:
  "(6 < depth \<longrightarrow> walk f dir depth st = Inr st)
   \<and> (depth \<le> 6 \<longrightarrow>
        (\<exists>more. dirsRead (ending (walk f dir depth st)) = dirsRead st @ (dir, depth) # more
           \<and> (\<forall>(p, d) \<in> set more. depth \<le> d \<and> d \<le> 6)))
   \<and> (\<exists>new. dirsRead (ending (walk f dir depth st)) = dirsRead st @ new
         \<and> (\<forall>(p, d) \<in> set new. depth \<le> d \<and> d \<le> 6))"
proof (intro conjI impI)
  assume "6 < depth"
  then show "walk f dir depth st = Inr st" by simp
next
  assume "depth \<le> 6"
  then show "\<exists>more. dirsRead (ending (walk f dir depth st)) = dirsRead st @ (dir, depth) # more
           \<and> (\<forall>(p, d) \<in> set more. depth \<le> d \<and> d \<le> 6)"
    by (rule walk_reads_dir)
next
  show "\<exists>new. dirsRead (ending (walk f dir depth st)) = dirsRead st @ new
         \<and> (\<forall>(p, d) \<in> set new. depth \<le> d \<and> d \<le> 6)"
    using walk_reads(1) [of depth st f dir] by (simp add: reads_within_def)
qed

theorem walk_depth_bounded_witness:
  "walk endless [''proj'', ''node_modules''] 7 \<lparr>found = [], dirsRead = []\<rparr>
     = Inr \<lparr>found = [], dirsRead = []\<rparr>
   \<and> (\<exists>st'. walk endless [''proj'', ''node_modules''] 0 \<lparr>found = [], dirsRead = []\<rparr> = Inr st'
         \<and> found st' = [(JStr ''a'', [''1.0.0''])]
         \<and> map snd (dirsRead st') = [0, 1, 2, 3, 4, 5, 6]
         \<and> list_all (\<lambda>(p, d). d \<le> 6) (dirsRead st'))
   \<and> walk oddTree [''proj'', ''node_modules''] 0 \<lparr>found = [], dirsRead = []\<rparr>
       = Inr \<lparr>found = [(JNum ''5'', [''1.0.0'']), (JObj [], [''2.0.0'']), (JObj [], [''3.0.0''])],
              dirsRead = [([''proj'', ''node_modules''], 0)]\<rparr>
   \<and> (\<exists>st'. walk throwingTree [''proj'', ''node_modules''] 0 \<lparr>found = [], dirsRead = []\<rparr>
                = Inl (TypeError, st')
         \<and> dirsRead st' = [([''proj'', ''node_modules''], 0),
                            ([''proj'', ''node_modules'', ''deep'', ''node_modules''], 1)]
         \<and> list_all (\<lambda>(p, d). d \<le> 6) (dirsRead st'))"
proof -
  let ?st = "\<lparr>found = [], dirsRead = []\<rparr>"
  let ?root = "[''proj'', ''node_modules'']"
  have a: "walk endless ?root 7 ?st = Inr ?st"
    using walk_depth_bounded [of 7 endless ?root ?st] by simp
  obtain st' where run: "walk endless ?root 0 ?st = Inr st'"
    and f: "found st' = [(JStr ''a'', [''1.0.0''])]"
    and r: "map snd (dirsRead st') = [0, 1, 2, 3, 4, 5, 6]"
    by (simp add: endless_def processPkg_def path_join_def readJSONSafe_def startsWith_def
          add_def Set_add_def reading_def)
  from walk_depth_bounded [of 0 endless ?root ?st] run
  have l: "list_all (\<lambda>(p, d). d \<le> 6) (dirsRead st')"
    by (auto simp: list_all_iff)
  have b: "\<exists>st'. walk endless ?root 0 ?st = Inr st'
         \<and> found st' = [(JStr ''a'', [''1.0.0''])]
         \<and> map snd (dirsRead st') = [0, 1, 2, 3, 4, 5, 6]
         \<and> list_all (\<lambda>(p, d). d \<le> 6) (dirsRead st')"
  proof (intro exI conjI)
    show "walk endless ?root 0 ?st = Inr st'" by (rule run)
    show "found st' = [(JStr ''a'', [''1.0.0''])]" by (rule f)
    show "map snd (dirsRead st') = [0, 1, 2, 3, 4, 5, 6]" by (rule r)
    show "list_all (\<lambda>(p, d). d \<le> 6) (dirsRead st')" by (rule l)
  qed
  have odd: "walk oddTree ?root 0 ?st
       = Inr \<lparr>found = [(JNum ''5'', [''1.0.0'']), (JObj [], [''2.0.0'']), (JObj [], [''3.0.0''])],
              dirsRead = [([''proj'', ''node_modules''], 0)]\<rparr>"
    by (simp add: oddTree_def processPkg_def path_join_def readJSONSafe_def startsWith_def
          add_def Set_add_def reading_def)
  let ?st2 = "\<lparr>found = [(JStr ''deep'', [''1.0.0''])],
               dirsRead = [([''proj'', ''node_modules''], 0),
                           ([''proj'', ''node_modules'', ''deep'', ''node_modules''], 1)]\<rparr>"
  have thr: "walk throwingTree ?root 0 ?st = Inl (TypeError, ?st2)"
    by (simp add: throwingTree_def processPkg_def path_join_def readJSONSafe_def startsWith_def
          add_def Set_add_def reading_def)
  from walk_depth_bounded [of 0 throwingTree ?root ?st] thr
  have l2: "list_all (\<lambda>(p, d). d \<le> 6) (dirsRead ?st2)"
    by (auto simp: list_all_iff)
  have c: "\<exists>st'. walk throwingTree ?root 0 ?st = Inl (TypeError, st')
         \<and> dirsRead st' = [([''proj'', ''node_modules''], 0),
                            ([''proj'', ''node_modules'', ''deep'', ''node_modules''], 1)]
         \<and> list_all (\<lambda>(p, d). d \<le> 6) (dirsRead st')"
  proof (intro exI conjI)
    show "walk throwingTree ?root 0 ?st = Inl (TypeError, ?st2)" by (rule thr)
    show "dirsRead ?st2 = [([''proj'', ''node_modules''], 0),
                           ([''proj'', ''node_modules'', ''deep'', ''node_modules''], 1)]"
      by simp
    show "list_all (\<lambda>(p, d). d \<le> 6) (dirsRead ?st2)" by (rule l2)
  qed
  from a b odd c show ?thesis by (intro conjI)
qed

text \<open>
  C9 on \<open>hiddenTree\<close>: the hidden directory \<^verbatim>\<open>.bin\<close> and the file are skipped, but
  the loop over the entries of \<^verbatim>\<open>@scope\<close> tests \<^verbatim>\<open>isDirectory()\<close> only, and the
  package in \<^verbatim>\<open>@scope/.hidden\<close> is inventoried.
\<close>

theorem walk_inventories_hidden_scoped_child:
  "collectFromNodeModules hiddenTree [''proj''] = Inr [(JStr ''evil'', [''6.6.6''])]"
  by (simp add: collectFromNodeModules_def hiddenTree_def processPkg_def path_join_def
        readJSONSafe_def startsWith_def add_def Set_add_def reading_def)

section \<open>The merge of the two inventories\<close>

lemma union_versions_commute: "union_versions a b = union_versions b a"
  by (auto simp: union_versions_def split: option.splits)

lemma merge_versions_length: "length (merge_versions t vs h) = length h"
  by (induction vs arbitrary: h) simp_all

lemma merge_versions_other: "r \<noteq> t \<Longrightarrow> merge_versions t vs h ! r = h ! r"
  by (induction vs arbitrary: h) simp_all

lemma merge_versions_target:
  "t < length h \<Longrightarrow> set (merge_versions t vs h ! t) = set (h ! t) \<union> set vs"
  by (induction vs arbitrary: h) (auto simp: Set_add_def)

lemma versions_of_same:
  "(\<And>r. r \<in> snd ` set m \<Longrightarrow> h' ! r = h ! r) \<Longrightarrow> versions_of h' m n = versions_of h m n"
proof (cases "Map_get m n")
  case None
  then show ?thesis by (simp add: versions_of_def)
next
  case (Some r)
  assume same: "\<And>r. r \<in> snd ` set m \<Longrightarrow> h' ! r = h ! r"
  from Map_get_mem [OF Some] have "r \<in> snd ` set m" by force
  from same [OF this] Some show ?thesis by (simp add: versions_of_def)
qed

lemma versions_of_Cons:
  "versions_of h ((nm, r) # m) n
     = (if sameValueZero nm n then Some (set (h ! r)) else versions_of h m n)"
  by (simp add: versions_of_def)

lemma versions_of_absent: "\<not> Map_has m n \<Longrightarrow> versions_of h m n = None"
  by (simp add: versions_of_def Map_has_get)

lemma distinct_refs_same_key:
  "distinct (map snd m) \<Longrightarrow> (a, r) \<in> set m \<Longrightarrow> (b, r) \<in> set m \<Longrightarrow> a = b"
  by (induction m) force+

lemma distinct_keys_append:
  "distinct_keys m \<Longrightarrow> \<not> Map_has m k \<Longrightarrow> distinct_keys (m @ [(k, v)])"
  by (auto simp: distinct_keys_iff Map_has_iff)

lemma merge_entries_found:
  "Map_get merged nm = Some t \<Longrightarrow>
     merge_entries ((nm, vers) # rest) merged h
       = merge_entries rest merged (merge_versions t (h ! vers) h)"
  by simp

lemma merge_entries_new:
  "Map_get merged nm = None \<Longrightarrow>
     merge_entries ((nm, vers) # rest) merged h
       = merge_entries rest (merged @ [(nm, length h)])
           (merge_versions (length h) ((h @ [[]]) ! vers) (h @ [[]]))"
  by simp

lemma merge_entries_union:
  assumes "distinct_keys merged" "distinct_keys rest"
    and "distinct (map snd merged @ map snd rest)"
    and "\<forall>r \<in> set (map snd merged @ map snd rest). r < length h"
  shows "versions_of (snd (merge_entries rest merged h)) (fst (merge_entries rest merged h)) n
       = union_versions (versions_of h merged n) (versions_of h rest n)"
  using assms
proof (induction rest arbitrary: merged h)
  case Nil
  show ?case by (cases "versions_of h merged n") (simp_all add: union_versions_def versions_of_def)
next
  case (Cons e rest)
  obtain nm vers where e: "e = (nm, vers)" by (cases e)
  from Cons.prems e have
    km: "distinct_keys merged" and kr: "distinct_keys rest" and nr: "\<not> Map_has rest nm"
    and dm: "distinct (map snd merged)" and dr: "distinct (map snd rest)"
    and vm: "vers \<notin> snd ` set merged" and vr: "vers \<notin> snd ` set rest"
    and mr: "snd ` set merged \<inter> snd ` set rest = {}"
    and vl: "vers < length h"
    and ml: "\<And>r. r \<in> snd ` set merged \<Longrightarrow> r < length h"
    and rl: "\<And>r. r \<in> snd ` set rest \<Longrightarrow> r < length h"
    by auto
  have ml': "(a, r) \<in> set merged \<Longrightarrow> r < length h" for a r
    using ml [of r] by force
  have rl': "(a, r) \<in> set rest \<Longrightarrow> r < length h" for a r
    using rl [of r] by force
  have same: "sameValueZero nm n \<Longrightarrow> n = nm"
    by (simp add: sameValueZero_iff)
  have goal_rhs: "versions_of h (e # rest) n
      = (if sameValueZero nm n then Some (set (h ! vers)) else versions_of h rest n)"
    by (simp add: e versions_of_Cons)
  have r1: "versions_of h rest nm = None"
    using nr by (rule versions_of_absent)
  show ?case
  proof (cases "Map_get merged nm")
    case (Some t)
    note g = Some
    then have tm: "(nm, t) \<in> set merged" by (rule Map_get_mem)
    then have ts: "t \<in> snd ` set merged" by force
    from g have pn: "primitive nm" by (rule Map_get_Some_primitive)
    let ?h2 = "merge_versions t (h ! vers) h"
    have step: "merge_entries (e # rest) merged h = merge_entries rest merged ?h2"
      unfolding e using g by (rule merge_entries_found)
    have pre: "distinct (map snd merged @ map snd rest)"
      "\<forall>r \<in> set (map snd merged @ map snd rest). r < length ?h2"
      using dm dr mr ml' rl' by (auto simp: merge_versions_length)
    have ih: "versions_of (snd (merge_entries rest merged ?h2)) (fst (merge_entries rest merged ?h2)) n
       = union_versions (versions_of ?h2 merged n) (versions_of ?h2 rest n)"
      by (rule Cons.IH [OF km kr pre])
    have r2: "versions_of ?h2 rest n = versions_of h rest n"
    proof (rule versions_of_same)
      fix r assume "r \<in> snd ` set rest"
      with ts mr have "r \<noteq> t" by auto
      then show "?h2 ! r = h ! r" by (rule merge_versions_other)
    qed
    have m2: "versions_of ?h2 merged n
        = (if sameValueZero nm n then Some (set (h ! t) \<union> set (h ! vers))
           else versions_of h merged n)"
    proof (cases "sameValueZero nm n")
      case True
      with same have "n = nm" by simp
      with True g ml [OF ts] show ?thesis
        by (simp add: versions_of_def merge_versions_target)
    next
      case False
      show ?thesis
      proof (cases "Map_get merged n")
        case None
        with False show ?thesis by (simp add: versions_of_def)
      next
        case (Some r)
        have "r \<noteq> t"
        proof
          assume "r = t"
          with Map_get_mem [OF Some] have "(n, t) \<in> set merged" by simp
          from distinct_refs_same_key [OF dm this tm] have "n = nm" .
          with pn False show False by (simp add: sameValueZero_iff)
        qed
        with Some False show ?thesis
          by (simp add: versions_of_def merge_versions_other)
      qed
    qed
    have m1: "versions_of h merged nm = Some (set (h ! t))"
      using g by (simp add: versions_of_def)
    show ?thesis
      unfolding step ih r2 m2 goal_rhs
      using m1 r1 same by (auto simp: union_versions_def split: option.splits)
  next
    case None
    then have nh: "\<not> Map_has merged nm" by (simp add: Map_has_get)
    let ?t = "length h"
    let ?m1 = "merged @ [(nm, ?t)]"
    let ?h1 = "h @ [[]]"
    let ?h2 = "merge_versions ?t (?h1 ! vers) ?h1"
    have hv: "?h1 ! vers = h ! vers" using vl by (simp add: nth_append)
    have step: "merge_entries (e # rest) merged h = merge_entries rest ?m1 ?h2"
      unfolding e using None by (rule merge_entries_new)
    have fresh: "?t \<notin> snd ` set merged" "?t \<notin> snd ` set rest"
      using ml rl by auto
    have pre1: "distinct_keys ?m1"
      using km nh by (rule distinct_keys_append)
    have pre: "distinct (map snd ?m1 @ map snd rest)"
      "\<forall>r \<in> set (map snd ?m1 @ map snd rest). r < length ?h2"
      using dm dr mr ml' rl' fresh
      by (auto simp: merge_versions_length less_Suc_eq)
    have ih: "versions_of (snd (merge_entries rest ?m1 ?h2)) (fst (merge_entries rest ?m1 ?h2)) n
       = union_versions (versions_of ?h2 ?m1 n) (versions_of ?h2 rest n)"
      by (rule Cons.IH [OF pre1 kr pre(1) pre(2)])
    have old: "r < length h \<Longrightarrow> ?h2 ! r = h ! r" for r
      by (simp add: merge_versions_other nth_append)
    have r2: "versions_of ?h2 rest n = versions_of h rest n"
      by (rule versions_of_same) (simp add: old rl)
    have mo: "versions_of ?h2 merged n = versions_of h merged n"
      by (rule versions_of_same) (simp add: old ml)
    have m2: "versions_of ?h2 ?m1 n
        = (if sameValueZero nm n then Some (set (h ! vers)) else versions_of h merged n)"
    proof (cases "sameValueZero nm n")
      case True
      with same have n: "n = nm" by simp
      from None True n have "Map_get ?m1 n = Some ?t" by (simp add: Map_get_append)
      with True show ?thesis
        by (simp add: versions_of_def merge_versions_target hv)
    next
      case False
      then have "Map_get ?m1 n = Map_get merged n"
        by (simp add: Map_get_append split: option.splits)
      then have "versions_of ?h2 ?m1 n = versions_of ?h2 merged n"
        by (simp add: versions_of_def)
      with mo False show ?thesis by simp
    qed
    have m1: "versions_of h merged nm = None"
      using nh by (rule versions_of_absent)
    show ?thesis
      unfolding step ih r2 m2 goal_rhs
      using m1 r1 same by (auto simp: union_versions_def split: option.splits)
  qed
qed

lemma Map_has_append: "Map_has (m @ [(k, v)]) k' \<longleftrightarrow> Map_has m k' \<or> sameValueZero k k'"
  by (induction m) auto

lemma distinct_keys_unique:
  "distinct_keys m \<Longrightarrow> primitive k \<Longrightarrow> (k, r) \<in> set m \<Longrightarrow> (k, t) \<in> set m \<Longrightarrow> r = t"
  using Map_get_distinct [of m k r] Map_get_distinct [of m k t] by simp

lemma merge_entries_exact:
  assumes "distinct_keys merged" "distinct_keys rest"
    and "distinct (map snd merged @ map snd rest)"
    and "\<forall>r \<in> set (map snd merged @ map snd rest). r < length h"
  shows "map (\<lambda>(k, r). (k, set (snd (merge_entries rest merged h) ! r)))
           (fst (merge_entries rest merged h))
       = map (\<lambda>(k, r). (k, set (h ! r) \<union>
                 (case Map_get rest k of None \<Rightarrow> {} | Some r' \<Rightarrow> set (h ! r')))) merged
         @ map (\<lambda>(k, r). (k, set (h ! r))) (filter (\<lambda>(k, r). \<not> Map_has merged k) rest)"
  using assms
proof (induction rest arbitrary: merged h)
  case Nil
  show ?case by simp
next
  case (Cons e rest)
  obtain nm vers where e: "e = (nm, vers)" by (cases e)
  from Cons.prems e have
    km: "distinct_keys merged" and kr: "distinct_keys rest" and nr: "\<not> Map_has rest nm"
    and dm: "distinct (map snd merged)" and dr: "distinct (map snd rest)"
    and vm: "vers \<notin> snd ` set merged" and vr: "vers \<notin> snd ` set rest"
    and mr: "snd ` set merged \<inter> snd ` set rest = {}"
    and vl: "vers < length h"
    and ml: "\<And>r. r \<in> snd ` set merged \<Longrightarrow> r < length h"
    and rl: "\<And>r. r \<in> snd ` set rest \<Longrightarrow> r < length h"
    by auto
  have ml': "(a, r) \<in> set merged \<Longrightarrow> r < length h" for a r
    using ml [of r] by force
  have rl': "(a, r) \<in> set rest \<Longrightarrow> r < length h" for a r
    using rl [of r] by force
  have rn: "Map_get rest nm = None" using nr by (simp add: Map_has_get)
  have rest_key: "(k, r) \<in> set rest \<Longrightarrow> \<not> sameValueZero nm k" for k r
  proof
    assume "(k, r) \<in> set rest" and "sameValueZero nm k"
    then have "primitive nm" "nm \<in> fst ` set rest" by (force simp: sameValueZero_iff)+
    with nr show False by (simp add: Map_has_iff)
  qed
  show ?case
  proof (cases "Map_get merged nm")
    case (Some t)
    note g = Some
    then have tm: "(nm, t) \<in> set merged" by (rule Map_get_mem)
    then have ts: "t \<in> snd ` set merged" by force
    from g have pn: "primitive nm" by (rule Map_get_Some_primitive)
    from g have hn: "Map_has merged nm" by (simp add: Map_has_get)
    let ?h2 = "merge_versions t (h ! vers) h"
    have step: "merge_entries (e # rest) merged h = merge_entries rest merged ?h2"
      unfolding e using g by (rule merge_entries_found)
    have pre: "distinct (map snd merged @ map snd rest)"
      "\<forall>r \<in> set (map snd merged @ map snd rest). r < length ?h2"
      using dm dr mr ml' rl' by (auto simp: merge_versions_length)
    note ih = Cons.IH [OF km kr pre]
    have rest_same: "(k, r) \<in> set rest \<Longrightarrow> ?h2 ! r = h ! r" for k r
    proof -
      assume "(k, r) \<in> set rest"
      then have "r \<in> snd ` set rest" by force
      with ts mr have "r \<noteq> t" by auto
      then show ?thesis by (rule merge_versions_other)
    qed
    have a: "map (\<lambda>(k, r). (k, set (?h2 ! r) \<union>
                 (case Map_get rest k of None \<Rightarrow> {} | Some r' \<Rightarrow> set (?h2 ! r')))) merged
           = map (\<lambda>(k, r). (k, set (h ! r) \<union>
                 (case Map_get (e # rest) k of None \<Rightarrow> {} | Some r' \<Rightarrow> set (h ! r')))) merged"
    proof (rule map_cong [OF refl])
      fix x assume x: "x \<in> set merged"
      obtain k r where kr': "x = (k, r)" by (cases x)
      have old: "(case Map_get rest k of None \<Rightarrow> {} | Some r' \<Rightarrow> set (?h2 ! r'))
               = (case Map_get rest k of None \<Rightarrow> {} | Some r' \<Rightarrow> set (h ! r'))"
      proof (cases "Map_get rest k")
        case None
        then show ?thesis by simp
      next
        case (Some r')
        from rest_same [OF Map_get_mem [OF Some]] Some show ?thesis by simp
      qed
      show "(case x of (k, r) \<Rightarrow> (k, set (?h2 ! r) \<union>
                 (case Map_get rest k of None \<Rightarrow> {} | Some r' \<Rightarrow> set (?h2 ! r'))))
          = (case x of (k, r) \<Rightarrow> (k, set (h ! r) \<union>
                 (case Map_get (e # rest) k of None \<Rightarrow> {} | Some r' \<Rightarrow> set (h ! r'))))"
      proof (cases "r = t")
        case True
        with x kr' have "(k, t) \<in> set merged" by simp
        from distinct_refs_same_key [OF dm this tm] have k: "k = nm" .
        from ml [OF ts] have "set (?h2 ! t) = set (h ! t) \<union> set (h ! vers)"
          by (rule merge_versions_target)
        with True k pn rn show ?thesis
          by (simp add: kr' e sameValueZero_iff)
      next
        case False
        have "\<not> sameValueZero nm k"
        proof
          assume "sameValueZero nm k"
          then have "k = nm" by (simp add: sameValueZero_iff)
          with x kr' have "(nm, r) \<in> set merged" by simp
          from distinct_keys_unique [OF km pn this tm] False show False by simp
        qed
        with False old show ?thesis
          by (simp add: kr' e merge_versions_other)
      qed
    qed
    have b: "map (\<lambda>(k, r). (k, set (?h2 ! r))) (filter (\<lambda>(k, r). \<not> Map_has merged k) rest)
           = map (\<lambda>(k, r). (k, set (h ! r))) (filter (\<lambda>(k, r). \<not> Map_has merged k) (e # rest))"
      using hn rest_same by (auto simp: e intro!: map_cong)
    show ?thesis unfolding step ih a b ..
  next
    case None
    then have nh: "\<not> Map_has merged nm" by (simp add: Map_has_get)
    let ?t = "length h"
    let ?m1 = "merged @ [(nm, ?t)]"
    let ?h1 = "h @ [[]]"
    let ?h2 = "merge_versions ?t (?h1 ! vers) ?h1"
    have hv: "?h1 ! vers = h ! vers" using vl by (simp add: nth_append)
    have step: "merge_entries (e # rest) merged h = merge_entries rest ?m1 ?h2"
      unfolding e using None by (rule merge_entries_new)
    have fresh: "?t \<notin> snd ` set merged" "?t \<notin> snd ` set rest"
      using ml rl by auto
    have pre1: "distinct_keys ?m1"
      using km nh by (rule distinct_keys_append)
    have pre: "distinct (map snd ?m1 @ map snd rest)"
      "\<forall>r \<in> set (map snd ?m1 @ map snd rest). r < length ?h2"
      using dm dr mr ml' rl' fresh
      by (auto simp: merge_versions_length less_Suc_eq)
    note ih = Cons.IH [OF pre1 kr pre(1) pre(2)]
    have old: "r < length h \<Longrightarrow> ?h2 ! r = h ! r" for r
      by (simp add: merge_versions_other nth_append)
    have new: "set (?h2 ! ?t) = set (h ! vers)"
      by (simp add: merge_versions_target hv)
    have a: "map (\<lambda>(k, r). (k, set (?h2 ! r) \<union>
                 (case Map_get rest k of None \<Rightarrow> {} | Some r' \<Rightarrow> set (?h2 ! r')))) merged
           = map (\<lambda>(k, r). (k, set (h ! r) \<union>
                 (case Map_get (e # rest) k of None \<Rightarrow> {} | Some r' \<Rightarrow> set (h ! r')))) merged"
    proof (rule map_cong [OF refl])
      fix x assume x: "x \<in> set merged"
      obtain k r where kr': "x = (k, r)" by (cases x)
      have o: "(case Map_get rest k of None \<Rightarrow> {} | Some r' \<Rightarrow> set (?h2 ! r'))
               = (case Map_get rest k of None \<Rightarrow> {} | Some r' \<Rightarrow> set (h ! r'))"
      proof (cases "Map_get rest k")
        case None
        then show ?thesis by simp
      next
        case (Some r')
        from rl' [OF Map_get_mem [OF Some]] have "?h2 ! r' = h ! r'" by (rule old)
        with Some show ?thesis by simp
      qed
      have "\<not> sameValueZero nm k"
      proof
        assume "sameValueZero nm k"
        then have "primitive nm" "k = nm" by (auto simp: sameValueZero_iff)
        with x kr' have "primitive nm" "nm \<in> fst ` set merged" by force+
        with nh show False by (simp add: Map_has_iff)
      qed
      with o old [OF ml' [of k r]] x kr'
      show "(case x of (k, r) \<Rightarrow> (k, set (?h2 ! r) \<union>
                 (case Map_get rest k of None \<Rightarrow> {} | Some r' \<Rightarrow> set (?h2 ! r'))))
          = (case x of (k, r) \<Rightarrow> (k, set (h ! r) \<union>
                 (case Map_get (e # rest) k of None \<Rightarrow> {} | Some r' \<Rightarrow> set (h ! r'))))"
        by (simp add: e)
    qed
    have b: "map (\<lambda>(k, r). (k, set (?h2 ! r))) (filter (\<lambda>(k, r). \<not> Map_has ?m1 k) rest)
           = map (\<lambda>(k, r). (k, set (h ! r))) (filter (\<lambda>(k, r). \<not> Map_has merged k) rest)"
    proof -
      have f: "filter (\<lambda>(k, r). \<not> Map_has ?m1 k) rest
             = filter (\<lambda>(k, r). \<not> Map_has merged k) rest"
        using rest_key by (auto simp: Map_has_append intro!: filter_cong)
      have m: "map (\<lambda>(k, r). (k, set (?h2 ! r))) (filter (\<lambda>(k, r). \<not> Map_has merged k) rest)
             = map (\<lambda>(k, r). (k, set (h ! r))) (filter (\<lambda>(k, r). \<not> Map_has merged k) rest)"
      proof (rule map_cong [OF refl])
        fix x assume "x \<in> set (filter (\<lambda>(k, r). \<not> Map_has merged k) rest)"
        then have x: "x \<in> set rest" by simp
        obtain k r where kr': "x = (k, r)" by (cases x)
        from rl' x kr' have "r < length h" by simp
        from old [OF this] show "(case x of (k, r) \<Rightarrow> (k, set (?h2 ! r)))
            = (case x of (k, r) \<Rightarrow> (k, set (h ! r)))"
          by (simp add: kr')
      qed
      show ?thesis unfolding f by (rule m)
    qed
    show ?thesis
      unfolding step ih
      using a b new rn nh by (simp add: e)
  qed
qed

lemma merge_versions_distinct:
  "list_all distinct h \<Longrightarrow> list_all distinct (merge_versions t vs h)"
proof (induction vs arbitrary: h)
  case Nil
  then show ?case by simp
next
  case (Cons v vs)
  have "list_all distinct (h[t := Set_add (h ! t) v])"
  proof (cases "t < length h")
    case True
    with Cons.prems have "distinct (h ! t)" by (simp add: list_all_length)
    then have "distinct (Set_add (h ! t) v)" by (rule Set_add_distinct)
    with Cons.prems show ?thesis
      by (auto simp: list_all_iff dest!: subsetD [OF set_update_subset_insert])
  next
    case False
    with Cons.prems show ?thesis by (simp add: list_update_beyond)
  qed
  from Cons.IH [OF this] show ?case by simp
qed

lemma merge_entries_wf:
  assumes "distinct_keys merged" and "list_all distinct h"
    and "\<forall>r \<in> snd ` set merged. r < length h"
  shows "distinct_keys (fst (merge_entries rest merged h))
       \<and> list_all distinct (snd (merge_entries rest merged h))
       \<and> (\<forall>r \<in> snd ` set (fst (merge_entries rest merged h)).
            r < length (snd (merge_entries rest merged h)))"
  using assms
proof (induction rest arbitrary: merged h)
  case Nil
  then show ?case by simp
next
  case (Cons e rest)
  obtain nm vers where e: "e = (nm, vers)" by (cases e)
  show ?case
  proof (cases "Map_get merged nm")
    case (Some t)
    let ?h2 = "merge_versions t (h ! vers) h"
    have step: "merge_entries (e # rest) merged h = merge_entries rest merged ?h2"
      unfolding e using Some by (rule merge_entries_found)
    have "list_all distinct ?h2" using Cons.prems(2) by (rule merge_versions_distinct)
    moreover have "\<forall>r \<in> snd ` set merged. r < length ?h2"
      using Cons.prems(3) by (simp add: merge_versions_length)
    ultimately show ?thesis
      unfolding step using Cons.IH [of merged ?h2] Cons.prems(1) by blast
  next
    case None
    then have nh: "\<not> Map_has merged nm" by (simp add: Map_has_get)
    let ?t = "length h"
    let ?m1 = "merged @ [(nm, ?t)]"
    let ?h1 = "h @ [[]]"
    let ?h2 = "merge_versions ?t (?h1 ! vers) ?h1"
    have step: "merge_entries (e # rest) merged h = merge_entries rest ?m1 ?h2"
      unfolding e using None by (rule merge_entries_new)
    have a: "distinct_keys ?m1"
      using Cons.prems(1) nh by (rule distinct_keys_append)
    have "list_all distinct ?h1" using Cons.prems(2) by simp
    then have b: "list_all distinct ?h2" by (rule merge_versions_distinct)
    have c: "\<forall>r \<in> snd ` set ?m1. r < length ?h2"
      using Cons.prems(3) by (auto simp: merge_versions_length less_Suc_eq)
    show ?thesis
      unfolding step using Cons.IH [OF a b c] .
  qed
qed

lemma alloc_props:
  "alloc I h = (m, h') \<Longrightarrow>
     map fst m = map fst I \<and> h' = h @ map snd I \<and> distinct (map snd m)
     \<and> (\<forall>r \<in> snd ` set m. length h \<le> r \<and> r < length h')
     \<and> versions_of (h' @ h'') m n = map_option set (Map_get I n)"
proof (induction I arbitrary: h m h')
  case Nil
  then show ?case by (simp add: versions_of_def)
next
  case (Cons e I)
  obtain nm vs where e: "e = (nm, vs)" by (cases e)
  obtain m1 h1 where a: "alloc I (h @ [vs]) = (m1, h1)" by (cases "alloc I (h @ [vs])")
  with Cons.prems e have m: "m = (nm, length h) # m1" and h': "h' = h1" by auto
  from Cons.IH [OF a] have
    k: "map fst m1 = map fst I" and s: "h1 = (h @ [vs]) @ map snd I"
    and d: "distinct (map snd m1)"
    and r: "\<forall>r \<in> snd ` set m1. length (h @ [vs]) \<le> r \<and> r < length h1"
    and v: "versions_of (h1 @ h'') m1 n = map_option set (Map_get I n)"
    by blast+
  have fresh: "length h \<notin> snd ` set m1" using r by auto
  have at: "(h1 @ h'') ! length h = vs" by (simp add: s nth_append)
  have "versions_of (h' @ h'') m n = map_option set (Map_get (e # I) n)"
    using v at by (simp add: m h' e versions_of_Cons)
  moreover have "\<forall>r \<in> snd ` set m. length h \<le> r \<and> r < length h'"
    using r by (auto simp: m h' s)
  ultimately show ?case using k s d fresh by (simp add: m h' e)
qed

lemma Map_get_map_values:
  "Map_get (map (\<lambda>(k, r). (k, g r)) m) n = map_option g (Map_get m n)"
  by (induction m) auto

lemma versions_of_inventory:
  "map_option set (Map_get (inventory_of h m) n) = versions_of h m n"
proof -
  have "inventory_of h m = map (\<lambda>(k, r). (k, (\<lambda>r. h ! r) r)) m"
    by (simp add: inventory_of_def)
  then have "Map_get (inventory_of h m) n = map_option (\<lambda>r. h ! r) (Map_get m n)"
    by (simp only: Map_get_map_values)
  then show ?thesis by (cases "Map_get m n") (simp_all add: versions_of_def)
qed

lemma inventory_of_wf:
  assumes "distinct_keys m" and "list_all distinct h" and "\<forall>r \<in> snd ` set m. r < length h"
  shows "wf_inventory (inventory_of h m)"
proof -
  have "map fst (inventory_of h m) = map fst m"
    by (simp add: inventory_of_def comp_def split_beta)
  with assms(1) have "distinct_keys (inventory_of h m)"
    by (simp add: distinct_keys_iff)
  moreover have "list_all (\<lambda>e. distinct (snd e)) (inventory_of h m)"
  proof -
    have "distinct (h ! r)" if "(k, r) \<in> set m" for k r
    proof -
      from that assms(3) have "r < length h" by force
      with assms(2) show ?thesis by (simp add: list_all_length)
    qed
    then show ?thesis by (auto simp: inventory_of_def list_all_iff)
  qed
  ultimately show ?thesis by (simp add: wf_inventory_def)
qed

lemma alloc_keys: "alloc I h = (m, h') \<Longrightarrow> distinct_keys m = distinct_keys I"
  using alloc_props [of I h m h' "[]" JNull] by (simp add: distinct_keys_iff)

lemma mergedInventory_union:
  assumes lock: "wf_inventory lock" and nm: "wf_inventory nm"
  shows "wf_inventory (mergedInventory lock nm)
       \<and> map_option set (Map_get (mergedInventory lock nm) n)
           = union_versions (map_option set (Map_get lock n)) (map_option set (Map_get nm n))"
proof -
  obtain nmMap h1 where a1: "alloc nm [] = (nmMap, h1)" by (cases "alloc nm []")
  obtain lockMap h2 where a2: "alloc lock h1 = (lockMap, h2)" by (cases "alloc lock h1")
  obtain merged h3 where m: "merge_entries nmMap lockMap h2 = (merged, h3)"
    by (cases "merge_entries nmMap lockMap h2")
  have I: "mergedInventory lock nm = inventory_of h3 merged"
    by (simp add: mergedInventory_def a1 a2 merge_def m)
  from nm lock have kn: "distinct_keys nm" and kl: "distinct_keys lock"
    and sn: "list_all distinct (map snd nm)" and sl: "list_all distinct (map snd lock)"
    by (auto simp: wf_inventory_def list_all_iff)
  from alloc_props [OF a1, of "map snd lock" n] have
    n2: "h1 = map snd nm"
    and n3: "distinct (map snd nmMap)"
    and n4: "\<forall>r \<in> snd ` set nmMap. r < length h1"
    and n5: "versions_of (h1 @ map snd lock) nmMap n = map_option set (Map_get nm n)"
    by auto
  from alloc_props [OF a2, of "[]" n] have
    l2: "h2 = h1 @ map snd lock"
    and l3: "distinct (map snd lockMap)"
    and l4: "\<forall>r \<in> snd ` set lockMap. length h1 \<le> r \<and> r < length h2"
    and l5: "versions_of h2 lockMap n = map_option set (Map_get lock n)"
    by auto
  have dk: "distinct_keys lockMap" "distinct_keys nmMap"
    using kn kl alloc_keys [OF a1] alloc_keys [OF a2] by simp_all
  have dr: "distinct (map snd lockMap @ map snd nmMap)"
    using n3 l3 n4 l4 by fastforce
  have lt: "\<forall>r \<in> set (map snd lockMap @ map snd nmMap). r < length h2"
    using n4 l4 l2 by auto
  have st: "list_all distinct h2"
    using sn sl by (simp add: l2 n2)
  have lt': "\<forall>r \<in> snd ` set lockMap. r < length h2" using l4 by auto
  from merge_entries_union [OF dk dr lt, of n] m n5 l5 l2
  have u: "versions_of h3 merged n
      = union_versions (map_option set (Map_get lock n)) (map_option set (Map_get nm n))"
    by simp
  from merge_entries_wf [OF dk(1) st lt', of nmMap] m
  have "wf_inventory (inventory_of h3 merged)"
    by (simp add: inventory_of_wf)
  with u show ?thesis by (simp add: I versions_of_inventory)
qed

text \<open>
  C5. Let \<open>A\<close> and \<open>B\<close> be two inventories in a store: each a \<^verbatim>\<open>Map\<close> with distinct
  keys, every name with a \<^verbatim>\<open>Set\<close> object of its own, none shared. Then in the merged
  \<^verbatim>\<open>Map\<close> a name that only one of them has maps to that one's versions, a name both
  have maps to the union of the two sets, and no other name is a key; and merging \<open>B\<close> into
  a copy of \<open>A\<close> or \<open>A\<close> into a copy of \<open>B\<close> gives every name the same set of versions.
  Entry by entry, the merged \<^verbatim>\<open>Map\<close> is the entries of \<open>A\<close>, each with its own versions
  and those \<open>B\<close> has for its key, followed by the entries of \<open>B\<close> whose key \<open>A\<close> lacks,
  with their versions.
\<close>

theorem merge_is_keywise_union:
  assumes "distinct_keys A" and "distinct_keys B"
    and "distinct (map snd A @ map snd B)"
    and "\<forall>r \<in> set (map snd A @ map snd B). r < length h"
  shows "versions_of (snd (merge A B h)) (fst (merge A B h)) n
           = union_versions (versions_of h A n) (versions_of h B n)
       \<and> versions_of (snd (merge A B h)) (fst (merge A B h)) n
           = versions_of (snd (merge B A h)) (fst (merge B A h)) n
       \<and> map (\<lambda>(k, r). (k, set (snd (merge A B h) ! r))) (fst (merge A B h))
           = map (\<lambda>(k, r). (k, set (h ! r) \<union>
                   (case Map_get B k of None \<Rightarrow> {} | Some r' \<Rightarrow> set (h ! r')))) A
             @ map (\<lambda>(k, r). (k, set (h ! r))) (filter (\<lambda>(k, r). \<not> Map_has A k) B)"
proof -
  have ab: "versions_of (snd (merge A B h)) (fst (merge A B h)) n
           = union_versions (versions_of h A n) (versions_of h B n)"
    unfolding merge_def using assms by (rule merge_entries_union)
  have d: "distinct (map snd B @ map snd A)"
    using assms(3) by auto
  have l: "\<forall>r \<in> set (map snd B @ map snd A). r < length h"
    using assms(4) by auto
  have ba: "versions_of (snd (merge B A h)) (fst (merge B A h)) n
           = union_versions (versions_of h B n) (versions_of h A n)"
    unfolding merge_def using assms(2) assms(1) d l by (rule merge_entries_union)
  have ex: "map (\<lambda>(k, r). (k, set (snd (merge A B h) ! r))) (fst (merge A B h))
           = map (\<lambda>(k, r). (k, set (h ! r) \<union>
                   (case Map_get B k of None \<Rightarrow> {} | Some r' \<Rightarrow> set (h ! r')))) A
             @ map (\<lambda>(k, r). (k, set (h ! r))) (filter (\<lambda>(k, r). \<not> Map_has A k) B)"
    unfolding merge_def using assms by (rule merge_entries_exact)
  from ab ba union_versions_commute [of "versions_of h A n" "versions_of h B n"]
  have "versions_of (snd (merge A B h)) (fst (merge A B h)) n
           = versions_of (snd (merge B A h)) (fst (merge B A h)) n"
    by simp
  with ab ex show ?thesis by (intro conjI)
qed

theorem merge_is_keywise_union_witness:
  "versions_of
     (snd (merge [(JStr ''pkg-a'', 0), (JStr ''pkg-b'', 1)]
             [(JStr ''pkg-a'', 2), (JObj [], 3), (JObj [], 4)]
             [[''1.0.0''], [''2.1.0''], [''1.0.1''], [''9.9.9''], [''8.8.8'']]))
     (fst (merge [(JStr ''pkg-a'', 0), (JStr ''pkg-b'', 1)]
             [(JStr ''pkg-a'', 2), (JObj [], 3), (JObj [], 4)]
             [[''1.0.0''], [''2.1.0''], [''1.0.1''], [''9.9.9''], [''8.8.8'']]))
     (JStr ''pkg-a'')
   = Some {''1.0.0'', ''1.0.1''}
   \<and> versions_of
     (snd (merge [(JStr ''pkg-a'', 2), (JObj [], 3), (JObj [], 4)]
             [(JStr ''pkg-a'', 0), (JStr ''pkg-b'', 1)]
             [[''1.0.0''], [''2.1.0''], [''1.0.1''], [''9.9.9''], [''8.8.8'']]))
     (fst (merge [(JStr ''pkg-a'', 2), (JObj [], 3), (JObj [], 4)]
             [(JStr ''pkg-a'', 0), (JStr ''pkg-b'', 1)]
             [[''1.0.0''], [''2.1.0''], [''1.0.1''], [''9.9.9''], [''8.8.8'']]))
     (JStr ''pkg-a'')
   = Some {''1.0.0'', ''1.0.1''}
   \<and> map (\<lambda>(k, r). (k, set (snd (merge [(JStr ''pkg-a'', 0), (JStr ''pkg-b'', 1)]
             [(JStr ''pkg-a'', 2), (JObj [], 3), (JObj [], 4)]
             [[''1.0.0''], [''2.1.0''], [''1.0.1''], [''9.9.9''], [''8.8.8'']]) ! r)))
       (fst (merge [(JStr ''pkg-a'', 0), (JStr ''pkg-b'', 1)]
             [(JStr ''pkg-a'', 2), (JObj [], 3), (JObj [], 4)]
             [[''1.0.0''], [''2.1.0''], [''1.0.1''], [''9.9.9''], [''8.8.8'']]))
   = [(JStr ''pkg-a'', {''1.0.0'', ''1.0.1''}), (JStr ''pkg-b'', {''2.1.0''}),
      (JObj [], {''9.9.9''}), (JObj [], {''8.8.8''})]"
proof -
  let ?A = "[(JStr ''pkg-a'', 0::nat), (JStr ''pkg-b'', 1)]"
  let ?B = "[(JStr ''pkg-a'', 2::nat), (JObj [], 3), (JObj [], 4)]"
  let ?h = "[[''1.0.0''], [''2.1.0''], [''1.0.1''], [''9.9.9''], [''8.8.8'']]"
  have a: "distinct_keys ?A" by simp
  have b: "distinct_keys ?B" by simp
  have c: "distinct (map snd ?A @ map snd ?B)" by simp
  have d: "\<forall>r \<in> set (map snd ?A @ map snd ?B). r < length ?h" by simp
  have u: "union_versions (versions_of ?h ?A (JStr ''pkg-a'')) (versions_of ?h ?B (JStr ''pkg-a''))
         = Some {''1.0.0'', ''1.0.1''}"
    by (auto simp: union_versions_def versions_of_def)
  have w: "map (\<lambda>(k, r). (k, set (?h ! r) \<union>
                   (case Map_get ?B k of None \<Rightarrow> {} | Some r' \<Rightarrow> set (?h ! r')))) ?A
             @ map (\<lambda>(k, r). (k, set (?h ! r))) (filter (\<lambda>(k, r). \<not> Map_has ?A k) ?B)
         = [(JStr ''pkg-a'', {''1.0.0'', ''1.0.1''}), (JStr ''pkg-b'', {''2.1.0''}),
            (JObj [], {''9.9.9''}), (JObj [], {''8.8.8''})]"
    by auto
  note t = merge_is_keywise_union [OF a b c d, of "JStr ''pkg-a''"]
  note x = trans [OF t [THEN conjunct1] u]
  note y = trans [OF t [THEN conjunct2, THEN conjunct1, symmetric] x]
  note z = trans [OF t [THEN conjunct2, THEN conjunct2] w]
  from x y z show ?thesis by (intro conjI)
qed

text \<open>
  C3 on one name both inventories have, each with a version set of its own in the store:
  \<^verbatim>\<open>new Map(lock)\<close> copies the reference, the loop adds to the set it refers to, and
  after the merge \<^verbatim>\<open>lock\<close> maps the name to a larger set than before.
\<close>

theorem merge_adds_to_the_sets_of_lock:
  "inventory_of [[''1.0.0''], [''2.0.0'']] [(JStr ''pkg'', 0)] = [(JStr ''pkg'', [''1.0.0''])]
   \<and> merge [(JStr ''pkg'', 0)] [(JStr ''pkg'', 1)] [[''1.0.0''], [''2.0.0'']]
       = ([(JStr ''pkg'', 0)], [[''1.0.0'', ''2.0.0''], [''2.0.0'']])
   \<and> inventory_of (snd (merge [(JStr ''pkg'', 0)] [(JStr ''pkg'', 1)] [[''1.0.0''], [''2.0.0'']]))
         [(JStr ''pkg'', 0)]
       = [(JStr ''pkg'', [''1.0.0'', ''2.0.0''])]"
  by (simp add: merge_def inventory_of_def Set_add_def)

section \<open>The registry loader\<close>

lemma falsy_has_no_packages: "\<not> truthy data \<Longrightarrow> \<not> isArray (getprop data ''packages'')"
  by (cases data) auto

text \<open>
  C2. \<open>loadKnownBad\<close> ends the process with exit code 2 exactly when there is no data to
  parse (no \<^verbatim>\<open>compromised.json\<close> at either place, or reading and parsing it throws) or
  the \<^verbatim>\<open>packages\<close> of the parsed data is not an array (absent included); otherwise it
  returns the parsed data. So \<^verbatim>\<open>{}\<close> is refused and every object whose
  \<^verbatim>\<open>packages\<close> is an array is accepted. When it fails, \<open>main\<close> ends with that exit and
  no collector has run.
\<close>

theorem loadKnownBad_fails_iff:
  "(loadKnownBad f projectRoot dirname = Inl (Exit 2) \<longleftrightarrow>
      (case knownBadPath f projectRoot dirname of
         None \<Rightarrow> True
       | Some p \<Rightarrow>
           (case readJSON f p of
              None \<Rightarrow> True
            | Some data \<Rightarrow> \<not> isArray (getprop data ''packages''))))
   \<and> (\<forall>p data. knownBadPath f projectRoot dirname = Some p \<and> readJSON f p = Some data
          \<and> isArray (getprop data ''packages'')
        \<longrightarrow> loadKnownBad f projectRoot dirname = Inr data)
   \<and> (\<forall>p. knownBadPath f projectRoot dirname = Some p \<and> readJSON f p = Some (JObj [])
        \<longrightarrow> loadKnownBad f projectRoot dirname = Inl (Exit 2))
   \<and> (\<forall>p kvs xs. knownBadPath f projectRoot dirname = Some p \<and> readJSON f p = Some (JObj kvs)
          \<and> map_of kvs ''packages'' = Some (JArr xs)
        \<longrightarrow> loadKnownBad f projectRoot dirname = Inr (JObj kvs))
   \<and> (\<forall>e. loadKnownBad f projectRoot dirname = Inl e
        \<longrightarrow> e = Exit 2 \<and> main f projectRoot dirname = Inl (Exit 2))"
proof -
  have t: "isArray (getprop data ''packages'') \<Longrightarrow> truthy data" for data
    using falsy_has_no_packages by blast
  have a: "loadKnownBad f projectRoot dirname = Inl (Exit 2) \<longleftrightarrow>
      (case knownBadPath f projectRoot dirname of
         None \<Rightarrow> True
       | Some p \<Rightarrow>
           (case readJSON f p of
              None \<Rightarrow> True
            | Some data \<Rightarrow> \<not> isArray (getprop data ''packages'')))"
    by (auto simp: loadKnownBad_def readJSONSafe_def Let_def dest: t split: option.splits)
  have b: "\<forall>p data. knownBadPath f projectRoot dirname = Some p \<and> readJSON f p = Some data
          \<and> isArray (getprop data ''packages'')
        \<longrightarrow> loadKnownBad f projectRoot dirname = Inr data"
    by (auto simp: loadKnownBad_def readJSONSafe_def Let_def dest: t)
  have c: "\<forall>p. knownBadPath f projectRoot dirname = Some p \<and> readJSON f p = Some (JObj [])
        \<longrightarrow> loadKnownBad f projectRoot dirname = Inl (Exit 2)"
    by (auto simp: loadKnownBad_def readJSONSafe_def Let_def)
  have d: "\<forall>p kvs xs. knownBadPath f projectRoot dirname = Some p \<and> readJSON f p = Some (JObj kvs)
          \<and> map_of kvs ''packages'' = Some (JArr xs)
        \<longrightarrow> loadKnownBad f projectRoot dirname = Inr (JObj kvs)"
    by (auto simp: loadKnownBad_def readJSONSafe_def Let_def)
  have e: "\<forall>e. loadKnownBad f projectRoot dirname = Inl e
        \<longrightarrow> e = Exit 2 \<and> main f projectRoot dirname = Inl (Exit 2)"
    by (auto simp: main_def loadKnownBad_def Let_def split: option.splits if_splits)
  from a b c d e show ?thesis by (intro conjI)
qed

theorem loadKnownBad_fails_iff_witness:
  "loadKnownBad (projectWithRegistry (JObj [])) [''proj''] [''lib''] = Inl (Exit 2)
   \<and> main (projectWithRegistry (JObj [])) [''proj''] [''lib''] = Inl (Exit 2)
   \<and> loadKnownBad
        (projectWithRegistry (JObj [(''packages'', JArr [
           JObj [(''name'', JStr ''pkg-a''), (''badVersions'', JArr [JStr ''1.0.0''])]])]))
        [''proj''] [''lib'']
      = Inr (JObj [(''packages'', JArr [
           JObj [(''name'', JStr ''pkg-a''), (''badVersions'', JArr [JStr ''1.0.0''])]])])"
proof -
  let ?f = "projectWithRegistry (JObj [])"
  let ?K = "JObj [(''packages'', JArr [
           JObj [(''name'', JStr ''pkg-a''), (''badVersions'', JArr [JStr ''1.0.0''])]])]"
  let ?g = "projectWithRegistry ?K"
  note t = loadKnownBad_fails_iff [of ?f "[''proj'']" "[''lib'']"]
  have p: "knownBadPath ?f [''proj''] [''lib''] = Some [''proj'', ''compromised.json'']
      \<and> readJSON ?f [''proj'', ''compromised.json''] = Some (JObj [])"
    by (simp add: knownBadPath_def projectWithRegistry_def path_join_def)
  from t [THEN conjunct2, THEN conjunct2, THEN conjunct1, THEN spec, THEN mp, OF p]
  have a: "loadKnownBad ?f [''proj''] [''lib''] = Inl (Exit 2)" .
  from t [THEN conjunct2, THEN conjunct2, THEN conjunct2, THEN conjunct2, THEN spec, THEN mp, OF a]
  have b: "main ?f [''proj''] [''lib''] = Inl (Exit 2)" by simp
  note u = loadKnownBad_fails_iff [of ?g "[''proj'']" "[''lib'']"]
  have q: "knownBadPath ?g [''proj''] [''lib''] = Some [''proj'', ''compromised.json'']
      \<and> readJSON ?g [''proj'', ''compromised.json''] = Some ?K
      \<and> isArray (getprop ?K ''packages'')"
    by (simp add: knownBadPath_def projectWithRegistry_def path_join_def)
  from u [THEN conjunct2, THEN conjunct1, THEN spec, THEN spec, THEN mp, OF q]
  have c: "loadKnownBad ?g [''proj''] [''lib''] = Inr ?K" .
  from a b c show ?thesis by (intro conjI)
qed
section \<open>The whole run, scenarios of the specification, tests of the repository\<close>

lemma primitive_rendered: "primitive v \<Longrightarrow> String_js v = Inr (rendered v)"
  by (cases v) (auto simp: rendered_def)

lemma compare_names_primitive:
  assumes "compare I K = Inr fs" and "f \<in> set fs"
  shows "primitive (name f)"
proof -
  from assms(1) obtain idx where "fs = concat (map (matchesOf idx) I)"
    by (auto simp: compare_def scanInstalled_append split: sum.splits)
  with assms(2) obtain e where "e \<in> set I" and f: "f \<in> set (matchesOf idx e)" by auto
  from matchesOf_primitive [OF f] matchesOf_names [OF f] show ?thesis by simp
qed

lemma uniqFindings_of_compare:
  assumes "compare I K = Inr fs"
  shows "uniqFindings fs
     = Inr (keep_first (\<lambda>g. rendered (name g) @ ''@'' @ version g) [] fs)"
proof -
  have "\<forall>f \<in> set fs. String_js (name f) = Inr (rendered (name f))"
    using compare_names_primitive [OF assms] primitive_rendered by blast
  from uniq_filter_keep_first [OF this, of "[]"] show ?thesis
    by (simp add: uniqFindings_def)
qed

lemma main_compares_the_union:
  assumes "loadKnownBad f projectRoot dirname = Inr knownBad"
    and nm: "collectFromNodeModules f projectRoot = Inr nm"
    and lock: "collectFromPackageLock f projectRoot = Inr lock"
  shows "main f projectRoot dirname
           = (case compare (mergedInventory lock nm) knownBad of
                Inl e \<Rightarrow> Inl e
              | Inr findings \<Rightarrow>
                  Inr (keep_first (\<lambda>g. rendered (name g) @ ''@'' @ version g) [] findings))
       \<and> wf_inventory (mergedInventory lock nm)
       \<and> map_option set (Map_get (mergedInventory lock nm) n)
           = union_versions (map_option set (Map_get lock n)) (map_option set (Map_get nm n))"
proof -
  have "main f projectRoot dirname
           = (case compare (mergedInventory lock nm) knownBad of
                Inl e \<Rightarrow> Inl e
              | Inr findings \<Rightarrow>
                  Inr (keep_first (\<lambda>g. rendered (name g) @ ''@'' @ version g) [] findings))"
    using assms by (auto simp: main_def uniqFindings_of_compare split: sum.splits)
  with mergedInventory_union
         [OF collectFromPackageLock_wf [OF lock] collectFromNodeModules_wf [OF nm]]
  show ?thesis by simp
qed

lemma test_compare_finds_compromised:
  "compare
     [(JStr ''test-package-1'', [''1.0.0'']), (JStr ''test-package-2'', [''2.1.0'']),
      (JStr ''@scope/test-package'', [''3.0.1'']), (JStr ''safe-package'', [''1.0.0'']),
      (JStr ''clean-package'', [''2.0.0''])]
     testCompromisedData
   = Inr [\<lparr>name = JStr ''test-package-1'', version = ''1.0.0''\<rparr>,
          \<lparr>name = JStr ''test-package-2'', version = ''2.1.0''\<rparr>,
          \<lparr>name = JStr ''@scope/test-package'', version = ''3.0.1''\<rparr>]"
  by (simp add: compare_def badIndexOf_def nullish_def testCompromisedData_def Set_add_def)

lemma test_compare_empty_bad_versions:
  "compare [(JStr ''safe-package'', [''1.0.0''])] testCompromisedData = Inr []"
  by (simp add: compare_def badIndexOf_def nullish_def testCompromisedData_def Set_add_def)

lemma test_compare_not_monitored:
  "compare [(JStr ''clean-package'', [''2.0.0''])] testCompromisedData = Inr []"
  by (simp add: compare_def badIndexOf_def nullish_def testCompromisedData_def Set_add_def)

lemma test_lockfile:
  "collectFromPackageLock fixtures [''fixtures'']
   = Inr [(JStr ''test-package-1'', [''1.0.0'']), (JStr ''test-package-2'', [''2.1.0'']),
      (JStr ''@scope/test-package'', [''3.0.1'']), (JStr ''safe-package'', [''1.0.0'']),
      (JStr ''clean-package'', [''2.0.0''])]"
  by (simp add: collectFromPackageLock_def fixtures_def testPackageLockData_def path_join_def
        readJSONSafe_def add_def Set_add_def replace_install_root_def startsWith_def)

lemma test_cli_finds_compromised:
  "main fixtures [''fixtures''] [''repo'']
   = Inr [\<lparr>name = JStr ''test-package-1'', version = ''1.0.0''\<rparr>,
          \<lparr>name = JStr ''test-package-2'', version = ''2.1.0''\<rparr>,
          \<lparr>name = JStr ''@scope/test-package'', version = ''3.0.1''\<rparr>]"
proof -
  have k: "loadKnownBad fixtures [''fixtures''] [''repo''] = Inr testCompromisedData"
    by (simp add: loadKnownBad_def knownBadPath_def fixtures_def path_join_def readJSONSafe_def
          testCompromisedData_def)
  have n: "collectFromNodeModules fixtures [''fixtures''] = Inr []"
    by (simp add: collectFromNodeModules_def fixtures_def path_join_def)
  show ?thesis
    unfolding main_def k n test_lockfile
    by (simp add: mergedInventory_def merge_def inventory_of_def uniqFindings_def
          finding_key_def test_compare_finds_compromised)
qed

lemma scenario_scoped_package:
  "collectFromNodeModules scopedTree [''proj'']
     = Inr [(JStr ''@scope/pkg'', [''3.0.1'']), (JStr ''dep'', [''2''])]
   \<and> compare [(JStr ''@scope/pkg'', [''3.0.1'']), (JStr ''dep'', [''2''])]
         (JObj [(''packages'', JArr [
            JObj [(''name'', JStr ''@scope/pkg''), (''badVersions'', JArr [JStr ''3.0.1''])]])])
       = Inr [\<lparr>name = JStr ''@scope/pkg'', version = ''3.0.1''\<rparr>]"
  by (simp add: collectFromNodeModules_def scopedTree_def processPkg_def path_join_def
        readJSONSafe_def startsWith_def add_def Set_add_def reading_def
        compare_def badIndexOf_def nullish_def)

lemma scenario_same_version_from_both_collectors:
  "mergedInventory [(JStr ''pkg-a'', [''1.0.0''])] [(JStr ''pkg-a'', [''1.0.0''])]
     = [(JStr ''pkg-a'', [''1.0.0''])]
   \<and> main (projectWithRegistry (JObj [(''packages'', JArr [
            JObj [(''name'', JStr ''pkg-a''), (''badVersions'', JArr [JStr ''1.0.0''])]])]))
         [''proj''] [''lib'']
       = Inr [\<lparr>name = JStr ''pkg-a'', version = ''1.0.0''\<rparr>]"
proof -
  let ?K = "JObj [(''packages'', JArr [
            JObj [(''name'', JStr ''pkg-a''), (''badVersions'', JArr [JStr ''1.0.0''])]])]"
  let ?f = "projectWithRegistry ?K"
  have m: "mergedInventory [(JStr ''pkg-a'', [''1.0.0''])] [(JStr ''pkg-a'', [''1.0.0''])]
      = [(JStr ''pkg-a'', [''1.0.0''])]"
    by (simp add: mergedInventory_def merge_def inventory_of_def Set_add_def)
  have k: "loadKnownBad ?f [''proj''] [''lib''] = Inr ?K"
    by (simp add: loadKnownBad_def knownBadPath_def projectWithRegistry_def path_join_def
          readJSONSafe_def)
  have n: "collectFromNodeModules ?f [''proj''] = Inr [(JStr ''pkg-a'', [''1.0.0''])]"
    by (simp add: collectFromNodeModules_def projectWithRegistry_def processPkg_def
          path_join_def readJSONSafe_def startsWith_def add_def Set_add_def reading_def)
  have l: "collectFromPackageLock ?f [''proj''] = Inr [(JStr ''pkg-a'', [''1.0.0''])]"
    by (simp add: collectFromPackageLock_def projectWithRegistry_def path_join_def
          readJSONSafe_def add_def Set_add_def replace_install_root_def startsWith_def)
  have c: "compare [(JStr ''pkg-a'', [''1.0.0''])] ?K
      = Inr [\<lparr>name = JStr ''pkg-a'', version = ''1.0.0''\<rparr>]"
    by (simp add: compare_def badIndexOf_def nullish_def Set_add_def)
  have "main ?f [''proj''] [''lib''] = Inr [\<lparr>name = JStr ''pkg-a'', version = ''1.0.0''\<rparr>]"
    unfolding main_def k n l by (simp add: m c uniqFindings_def finding_key_def)
  with m show ?thesis by (rule conjI)
qed

text \<open>
  Names that are not strings. The number \<^verbatim>\<open>5\<close> and the string \<^verbatim>\<open>"5"\<close> are two keys
  of the merged \<^verbatim>\<open>Map\<close> and of the index, \<open>compare\<close> reports both, and
  \<open>uniqFindings\<close> keeps the first, since both have the key \<^verbatim>\<open>5@1.0.0\<close>. Two
  manifests whose name is the object \<^verbatim>\<open>{}\<close> give two entries, which no entry of
  the index equals. A version that \<^verbatim>\<open>String\<close> cannot convert ends the run with its
  \<^verbatim>\<open>TypeError\<close>.
\<close>

lemma scenario_number_and_string_name:
  "collectFromNodeModules numberNamed [''proj''] = Inr [(JNum ''5'', [''1.0.0''])]
   \<and> collectFromPackageLock numberNamed [''proj''] = Inr [(JStr ''5'', [''1.0.0''])]
   \<and> mergedInventory [(JStr ''5'', [''1.0.0''])] [(JNum ''5'', [''1.0.0''])]
       = [(JStr ''5'', [''1.0.0'']), (JNum ''5'', [''1.0.0''])]
   \<and> compare [(JStr ''5'', [''1.0.0'']), (JNum ''5'', [''1.0.0''])]
         (JObj [(''packages'', JArr [
            JObj [(''name'', JNum ''5''), (''badVersions'', JArr [JStr ''1.0.0''])],
            JObj [(''name'', JStr ''5''), (''badVersions'', JArr [JStr ''1.0.0''])]])])
       = Inr [\<lparr>name = JStr ''5'', version = ''1.0.0''\<rparr>, \<lparr>name = JNum ''5'', version = ''1.0.0''\<rparr>]
   \<and> main numberNamed [''proj''] [''lib''] = Inr [\<lparr>name = JStr ''5'', version = ''1.0.0''\<rparr>]"
proof -
  let ?K = "JObj [(''packages'', JArr [
            JObj [(''name'', JNum ''5''), (''badVersions'', JArr [JStr ''1.0.0''])],
            JObj [(''name'', JStr ''5''), (''badVersions'', JArr [JStr ''1.0.0''])]])]"
  have n: "collectFromNodeModules numberNamed [''proj''] = Inr [(JNum ''5'', [''1.0.0''])]"
    by (simp add: collectFromNodeModules_def numberNamed_def processPkg_def
          path_join_def readJSONSafe_def startsWith_def add_def Set_add_def reading_def)
  have l: "collectFromPackageLock numberNamed [''proj''] = Inr [(JStr ''5'', [''1.0.0''])]"
    by (simp add: collectFromPackageLock_def numberNamed_def path_join_def
          readJSONSafe_def add_def Set_add_def replace_install_root_def startsWith_def)
  have m: "mergedInventory [(JStr ''5'', [''1.0.0''])] [(JNum ''5'', [''1.0.0''])]
       = [(JStr ''5'', [''1.0.0'']), (JNum ''5'', [''1.0.0''])]"
    by (simp add: mergedInventory_def merge_def inventory_of_def Set_add_def)
  have c: "compare [(JStr ''5'', [''1.0.0'']), (JNum ''5'', [''1.0.0''])] ?K
       = Inr [\<lparr>name = JStr ''5'', version = ''1.0.0''\<rparr>, \<lparr>name = JNum ''5'', version = ''1.0.0''\<rparr>]"
    by (simp add: compare_def badIndexOf_def nullish_def Set_add_def)
  have k: "loadKnownBad numberNamed [''proj''] [''lib''] = Inr ?K"
    by (simp add: loadKnownBad_def knownBadPath_def numberNamed_def path_join_def
          readJSONSafe_def)
  have r: "main numberNamed [''proj''] [''lib''] = Inr [\<lparr>name = JStr ''5'', version = ''1.0.0''\<rparr>]"
    unfolding main_def k n l by (simp add: m c uniqFindings_def finding_key_def)
  from n l m c r show ?thesis by (intro conjI)
qed

lemma scenario_object_names:
  "add [(JObj [], [''2.0.0''])] (JObj []) (JStr ''3.0.0'')
     = Inr [(JObj [], [''2.0.0'']), (JObj [], [''3.0.0''])]
   \<and> mergedInventory [(JStr ''a'', [''1.0.0''])] [(JObj [], [''2.0.0'']), (JObj [], [''3.0.0''])]
       = [(JStr ''a'', [''1.0.0'']), (JObj [], [''2.0.0'']), (JObj [], [''3.0.0''])]
   \<and> compare [(JStr ''a'', [''1.0.0'']), (JObj [], [''2.0.0'']), (JObj [], [''3.0.0''])]
         (JObj [(''packages'', JArr [
            JObj [(''name'', JObj []), (''badVersions'', JArr [JStr ''2.0.0'', JStr ''3.0.0''])]])])
       = Inr []
   \<and> collectFromNodeModules oddTree [''proj'']
       = Inr [(JNum ''5'', [''1.0.0'']), (JObj [], [''2.0.0'']), (JObj [], [''3.0.0''])]
   \<and> collectFromNodeModules throwingTree [''proj''] = Inl TypeError"
proof -
  have a: "add [(JObj [], [''2.0.0''])] (JObj []) (JStr ''3.0.0'')
     = Inr [(JObj [], [''2.0.0'']), (JObj [], [''3.0.0''])]"
    by (simp add: add_def Set_add_def)
  have m: "mergedInventory [(JStr ''a'', [''1.0.0''])] [(JObj [], [''2.0.0'']), (JObj [], [''3.0.0''])]
       = [(JStr ''a'', [''1.0.0'']), (JObj [], [''2.0.0'']), (JObj [], [''3.0.0''])]"
    by (simp add: mergedInventory_def merge_def inventory_of_def Set_add_def)
  have c: "compare [(JStr ''a'', [''1.0.0'']), (JObj [], [''2.0.0'']), (JObj [], [''3.0.0''])]
         (JObj [(''packages'', JArr [
            JObj [(''name'', JObj []), (''badVersions'', JArr [JStr ''2.0.0'', JStr ''3.0.0''])]])])
       = Inr []"
    by (simp add: compare_def badIndexOf_def nullish_def Set_add_def)
  have o: "collectFromNodeModules oddTree [''proj'']
       = Inr [(JNum ''5'', [''1.0.0'']), (JObj [], [''2.0.0'']), (JObj [], [''3.0.0''])]"
    by (simp add: collectFromNodeModules_def oddTree_def processPkg_def path_join_def
          readJSONSafe_def startsWith_def add_def Set_add_def reading_def)
  have t: "collectFromNodeModules throwingTree [''proj''] = Inl TypeError"
    by (simp add: collectFromNodeModules_def throwingTree_def processPkg_def path_join_def
          readJSONSafe_def startsWith_def add_def Set_add_def reading_def)
  from a m c o t show ?thesis by (intro conjI)
qed

end
